theory Spec2Isabelle
  imports Complex_Main
begin

section \<open>Python values: errors, indexing, dictionaries\<close>

text \<open>
  The exceptions of \<^verbatim>\<open>generate.py\<close> that the modelled functions can raise.
\<close>

datatype error = ValueError | IndexError | KeyError | TypeError

text \<open>
  \<^verbatim>\<open>xs[i]\<close> on a Python list (and on a tensor axis): a negative index counts from
  the end, an index out of range raises \<^verbatim>\<open>IndexError\<close>.
\<close>

definition py_index :: "nat \<Rightarrow> int \<Rightarrow> nat option" where
  "py_index n i =
     (if 0 \<le> i \<and> i < int n then Some (nat i)
      else if i < 0 \<and> - int n \<le> i then Some (nat (int n + i))
      else None)"

definition py_get :: "'a list \<Rightarrow> int \<Rightarrow> error + 'a" where
  "py_get xs i =
     (case py_index (length xs) i of
        None \<Rightarrow> Inl IndexError
      | Some j \<Rightarrow> Inr (xs ! j))"

text \<open>
  \<^verbatim>\<open>xs[i] = v\<close>, with the same index rules.
\<close>

definition py_set :: "'a list \<Rightarrow> int \<Rightarrow> 'a \<Rightarrow> error + 'a list" where
  "py_set xs i v =
     (case py_index (length xs) i of
        None \<Rightarrow> Inl IndexError
      | Some j \<Rightarrow> Inr (xs[j := v]))"

text \<open>
  \<^verbatim>\<open>xs[a:b]\<close>: both bounds are shifted by the length when negative and then clamped
  into \<open>[0, len]\<close>; an empty span gives the empty list. Slicing never raises.
\<close>

definition py_clamp :: "nat \<Rightarrow> int \<Rightarrow> nat" where
  "py_clamp n i = (if i < 0 then nat (max (int n + i) 0) else nat (min i (int n)))"

definition py_slice :: "'a list \<Rightarrow> int \<Rightarrow> int \<Rightarrow> 'a list" where
  "py_slice xs a b =
     (let s = py_clamp (length xs) a; e = py_clamp (length xs) b
      in take (e - s) (drop s xs))"

text \<open>
  \<^verbatim>\<open>range(a, b)\<close>.
\<close>

definition py_range :: "int \<Rightarrow> int \<Rightarrow> int list" where
  "py_range a b = [a..b - 1]"

text \<open>
  A Python \<^verbatim>\<open>dict\<close> keeps its keys in insertion order, so it is an association list
  without repeated keys. \<^verbatim>\<open>d[k] = v\<close> overwrites in place when the key is there and
  appends otherwise; \<^verbatim>\<open>d[k]\<close> raises \<^verbatim>\<open>KeyError\<close> on a missing key.
\<close>

type_synonym ('k, 'v) dict = "('k \<times> 'v) list"

definition dict_keys :: "('k, 'v) dict \<Rightarrow> 'k list" where
  "dict_keys d = map fst d"

fun dict_set :: "'k \<Rightarrow> 'v \<Rightarrow> ('k, 'v) dict \<Rightarrow> ('k, 'v) dict" where
  "dict_set k v [] = [(k, v)]"
| "dict_set k v (p # ps) = (if fst p = k then (k, v) # ps else p # dict_set k v ps)"

fun dict_get :: "('k, 'v) dict \<Rightarrow> 'k \<Rightarrow> error + 'v" where
  "dict_get [] k = Inl KeyError"
| "dict_get (p # ps) k = (if fst p = k then Inr (snd p) else dict_get ps k)"


section \<open>The context window segmenter: \<^verbatim>\<open>segment_dict\<close>\<close>

text \<open>
  The \<^verbatim>\<open>for i in range(start, start + segment_size)\<close> loop of \<^verbatim>\<open>segment_dict\<close>: it
  copies the entries of one window into \<^verbatim>\<open>current_segment\<close> and collects the keys that
  were in the previous window into \<^verbatim>\<open>current_overlap_keys\<close>.
\<close>

fun build_segment ::
  "('k, 'v) dict \<Rightarrow> 'k list \<Rightarrow> 'k list \<Rightarrow> int list \<Rightarrow> ('k, 'v) dict \<times> 'k list
     \<Rightarrow> error + (('k, 'v) dict \<times> 'k list)" where
  "build_segment dictionary keys previous_segment_keys [] acc = Inr acc"
| "build_segment dictionary keys previous_segment_keys (i # is) acc =
     (case py_get keys i of
        Inl e \<Rightarrow> Inl e
      | Inr key \<Rightarrow>
          (case dict_get dictionary key of
             Inl e \<Rightarrow> Inl e
           | Inr v \<Rightarrow>
               build_segment dictionary keys previous_segment_keys is
                 (dict_set key v (fst acc),
                  if key \<in> set previous_segment_keys then snd acc @ [key] else snd acc)))"

text \<open>
  The \<^verbatim>\<open>while start < len(keys)\<close> loop. Nothing in the loop itself bounds the number
  of rounds (with \<^verbatim>\<open>overlap >= segment_size\<close> the start pointer does not advance), so
  the loop is a partial function: \<open>None\<close> is the run that never returns.
\<close>

partial_function (option) segment_loop ::
  "('k, 'v) dict \<Rightarrow> 'k list \<Rightarrow> int \<Rightarrow> int \<Rightarrow> int \<Rightarrow> 'k list
     \<Rightarrow> ('k, 'v) dict list \<times> 'k list list
     \<Rightarrow> (error + (('k, 'v) dict list \<times> 'k list list)) option" where
  "segment_loop dictionary keys segment_size overlap start previous_segment_keys acc =
     (if start < int (length keys) then
        (let next_start = start + segment_size - overlap;
             start' = (if int (length keys) - start < segment_size
                       then int (length keys) - segment_size else start)
         in case build_segment dictionary keys previous_segment_keys
                   (py_range start' (start' + segment_size)) ([], []) of
              Inl e \<Rightarrow> Some (Inl e)
            | Inr cur \<Rightarrow>
                (let acc' = (fst acc @ [fst cur], snd acc @ [snd cur]);
                     previous_segment_keys' = py_slice keys start' (start' + segment_size)
                 in if start' + segment_size \<ge> int (length keys) then Some (Inr acc')
                    else segment_loop dictionary keys segment_size overlap next_start
                           previous_segment_keys' acc'))
      else Some (Inr acc))"

declare segment_loop.simps [code]

definition segment_dict ::
  "('k, 'v) dict \<Rightarrow> int \<Rightarrow> int
     \<Rightarrow> (error + (('k, 'v) dict list \<times> 'k list list)) option" where
  "segment_dict dictionary segment_size overlap =
     (let keys = dict_keys dictionary
      in if int (length keys) < segment_size then Some (Inl ValueError)
         else if int (length keys) = segment_size then Some (Inr ([dictionary], []))
         else segment_loop dictionary keys segment_size overlap 0 [] ([], []))"

text \<open>
  The property the windows are checked against: window 0 whole, then every later window
  \<open>i\<close> without its first \<open>len(overlaps[i])\<close> keys. \<open>overlap_is_prefix\<close> says that
  an overlap list is the front of its window, and \<open>trim_all\<close> is the same concatenation
  over two lists of equal length.
\<close>

definition trimmed_concat :: "('k, 'v) dict list \<Rightarrow> 'k list list \<Rightarrow> 'k list" where
  "trimmed_concat segments overlaps =
     (case segments of
        [] \<Rightarrow> []
      | s0 # _ \<Rightarrow>
          dict_keys s0 @
          concat (map (\<lambda>i. drop (length (overlaps ! i)) (dict_keys (segments ! i)))
                    [1..<length segments]))"

definition overlap_is_prefix :: "('k, 'v) dict \<Rightarrow> 'k list \<Rightarrow> bool" where
  "overlap_is_prefix seg ov = (take (length ov) (dict_keys seg) = ov)"

definition trim_all :: "('k, 'v) dict list \<Rightarrow> 'k list list \<Rightarrow> 'k list" where
  "trim_all segs ovs = concat (map2 (\<lambda>seg ov. drop (length ov) (dict_keys seg)) segs ovs)"


section \<open>The latent continuity enforcer: \<^verbatim>\<open>example_callback\<close>\<close>

text \<open>
  A latent tensor is indexed \<open>[batch, channel, frame, height, width]\<close>; the callback only
  reads and writes whole slices along the frame axis, so a tensor is the list of its
  frame slices. Tensors are objects: the cache keeps references and the callback writes
  in place, so the state is a heap of tensors by address together with the nested
  dictionary \<^verbatim>\<open>latents_cache[idx][iteration]\<close> of addresses.
\<close>

type_synonym addr = nat

record 'f callback_state =
  heap :: "addr \<Rightarrow> 'f list"
  latents_cache :: "int \<rightharpoonup> (int \<rightharpoonup> addr)"

text \<open>
  \<^verbatim>\<open>if idx not in latents_cache: latents_cache[idx] = {}\<close> followed by
  \<^verbatim>\<open>latents_cache[idx][iteration] = latents\<close>.
\<close>

definition cache_latents :: "'f callback_state \<Rightarrow> int \<Rightarrow> int \<Rightarrow> addr \<Rightarrow> 'f callback_state" where
  "cache_latents st idx iteration latents =
     (let inner = (case latents_cache st idx of None \<Rightarrow> Map.empty | Some m \<Rightarrow> m)
      in st\<lparr>latents_cache := (latents_cache st)(idx \<mapsto> inner(iteration \<mapsto> latents))\<rparr>)"

text \<open>
  The body of \<^verbatim>\<open>for i, _ in enumerate(overlaps[idx])\<close>, once per position \<open>i\<close>;
  \<open>n_overlap\<close> is \<^verbatim>\<open>len(overlaps[idx])\<close>. The previous window's tensor is looked up in
  every round, and the frame is written into the current tensor in place.
\<close>

fun copy_overlap ::
  "'f callback_state \<Rightarrow> int \<Rightarrow> int \<Rightarrow> addr \<Rightarrow> nat \<Rightarrow> nat list \<Rightarrow> error + 'f callback_state" where
  "copy_overlap st idx iteration latents n_overlap [] = Inr st"
| "copy_overlap st idx iteration latents n_overlap (i # is) =
     (case latents_cache st (idx - 1) of
        None \<Rightarrow> Inl KeyError
      | Some per_iteration \<Rightarrow>
          (case per_iteration iteration of
             None \<Rightarrow> Inl KeyError
           | Some last_latents \<Rightarrow>
               (let last_idx = int (length (heap st latents)) - int n_overlap + int i
                in case py_get (heap st last_latents) last_idx of
                     Inl e \<Rightarrow> Inl e
                   | Inr frame \<Rightarrow>
                       (case py_set (heap st latents) (int i) frame of
                          Inl e \<Rightarrow> Inl e
                        | Inr buffer \<Rightarrow>
                            copy_overlap (st\<lparr>heap := (heap st)(latents := buffer)\<rparr>)
                              idx iteration latents n_overlap is))))"

text \<open>
  \<^verbatim>\<open>example_callback(idx, iteration, t, latents)\<close> with \<^verbatim>\<open>debug=False\<close>, as the
  pipeline calls it; the timestep \<^verbatim>\<open>t\<close> is not used.
\<close>

definition example_callback ::
  "'k list list \<Rightarrow> 'f callback_state \<Rightarrow> int \<Rightarrow> int \<Rightarrow> addr \<Rightarrow> error + 'f callback_state" where
  "example_callback overlaps st idx iteration latents =
     (let st1 = cache_latents st idx iteration latents
      in if idx > 0 then
           (case py_get overlaps idx of
              Inl e \<Rightarrow> Inl e
            | Inr overlap_keys \<Rightarrow>
                copy_overlap st1 idx iteration latents (length overlap_keys)
                  [0..<length overlap_keys])
         else Inr st1)"


section \<open>The output stitcher: \<^verbatim>\<open>combine_videos\<close>\<close>

text \<open>
  A window output is a \<^verbatim>\<open>torch.Tensor\<close>, a \<^verbatim>\<open>numpy.ndarray\<close> or a value that is
  neither (\<open>Other\<close>, such as \<^verbatim>\<open>None\<close>); the two arrays are again the lists of their
  slices along axis 2.
\<close>

datatype 'f video = Tensor "'f list" | NdArray "'f list" | Other

text \<open>
  \<^verbatim>\<open>video[:, :, slice_length:, :, :]\<close> and \<^verbatim>\<open>torch.cat((a, b), dim=2)\<close>, which accepts
  tensors only.
\<close>

fun slice_from :: "nat \<Rightarrow> 'f video \<Rightarrow> error + 'f video" where
  "slice_from n (Tensor fs) = Inr (Tensor (drop n fs))"
| "slice_from n (NdArray fs) = Inr (NdArray (drop n fs))"
| "slice_from n Other = Inl TypeError"

fun torch_cat :: "'f video \<Rightarrow> 'f video \<Rightarrow> error + 'f video" where
  "torch_cat (Tensor a) (Tensor b) = Inr (Tensor (a @ b))"
| "torch_cat _ _ = Inl TypeError"

text \<open>
  \<^verbatim>\<open>np.concatenate(videos, axis=2)\<close>: every element is converted to an array and the
  frame axes are joined; a value that is no array is refused.
\<close>

fun np_concatenate :: "'f video list \<Rightarrow> error + 'f list" where
  "np_concatenate [] = Inr []"
| "np_concatenate (Tensor fs # vs) =
     (case np_concatenate vs of Inl e \<Rightarrow> Inl e | Inr r \<Rightarrow> Inr (fs @ r))"
| "np_concatenate (NdArray fs # vs) =
     (case np_concatenate vs of Inl e \<Rightarrow> Inl e | Inr r \<Rightarrow> Inr (fs @ r))"
| "np_concatenate (Other # vs) = Inl ValueError"

text \<open>
  The \<^verbatim>\<open>for i, video in enumerate(videos)\<close> loop of the tensor branch.
\<close>

fun combine_tensors ::
  "'f video list \<Rightarrow> 'k list list \<Rightarrow> nat \<Rightarrow> 'f video \<Rightarrow> error + 'f video" where
  "combine_tensors [] overlaps i combined_video = Inr combined_video"
| "combine_tensors (video # rest) overlaps i combined_video =
     (if i = 0 then combine_tensors rest overlaps (Suc i) video
      else
        (case py_get overlaps (int i) of
           Inl e \<Rightarrow> Inl e
         | Inr overlap_keys \<Rightarrow>
             (case slice_from (length overlap_keys) video of
                Inl e \<Rightarrow> Inl e
              | Inr video_sliced \<Rightarrow>
                  (case torch_cat combined_video video_sliced of
                     Inl e \<Rightarrow> Inl e
                   | Inr c \<Rightarrow> combine_tensors rest overlaps (Suc i) c))))"

definition combine_videos :: "'f video list \<Rightarrow> 'k list list \<Rightarrow> error + 'f video" where
  "combine_videos videos overlaps =
     (case videos of
        [] \<Rightarrow> Inl IndexError
      | v0 # _ \<Rightarrow>
          (case v0 of
             Tensor _ \<Rightarrow> combine_tensors videos overlaps 0 v0
           | NdArray _ \<Rightarrow>
               (case np_concatenate videos of Inl e \<Rightarrow> Inl e | Inr fs \<Rightarrow> Inr (NdArray fs))
           | Other \<Rightarrow> Inl ValueError))"

definition frame_count :: "'f video \<Rightarrow> nat" where
  "frame_count v = (case v of Tensor fs \<Rightarrow> length fs | NdArray fs \<Rightarrow> length fs | Other \<Rightarrow> 0)"


section \<open>The keyframe scheduler: \<^verbatim>\<open>prompt_preprocess\<close>, \<^verbatim>\<open>ip_adapter_preprocess\<close>\<close>

text \<open>
  \<^verbatim>\<open>prompt_fixed_ratio\<close> is a Python float. It is modelled as a rational number and
  the product \<^verbatim>\<open>(k1 - k0) * prompt_fixed_ratio\<close> as the exact product, so the rounding
  error of the floating-point multiplication is left out; the model is exact for ratios
  such as \<open>0\<close>, \<open>0.5\<close> and \<open>1\<close>, whose products with an integer are exact floats.
  \<^verbatim>\<open>round\<close> is Python 3's: to the nearest integer, a tie to the even one.
\<close>

definition py_round :: "rat \<Rightarrow> int" where
  "py_round x =
     (let f = \<lfloor>x\<rfloor>; d = x - of_int f
      in if d < 1 / 2 then f
         else if 1 / 2 < d then f + 1
         else if even f then f else f + 1)"

text \<open>
  The loop \<^verbatim>\<open>for k0, k1 in zip(key_list, key_list[1:] + [video_length])\<close>, shared by
  \<^verbatim>\<open>prompt_preprocess\<close> and \<^verbatim>\<open>ip_adapter_preprocess\<close>; it writes into the dictionary
  it reads from.
\<close>

fun insert_hold_keys ::
  "(int \<times> int) list \<Rightarrow> rat \<Rightarrow> (int, 'v) dict \<Rightarrow> error + (int, 'v) dict" where
  "insert_hold_keys [] prompt_fixed_ratio prompt_map = Inr prompt_map"
| "insert_hold_keys ((k0, k1) # pairs) prompt_fixed_ratio prompt_map =
     (let k05 = k0 + py_round (of_int (k1 - k0) * prompt_fixed_ratio);
          k05 = (if k05 = k1 then k05 - 1 else k05)
      in if k05 \<noteq> k0 then
           (case dict_get prompt_map k0 of
              Inl e \<Rightarrow> Inl e
            | Inr v \<Rightarrow> insert_hold_keys pairs prompt_fixed_ratio (dict_set k05 v prompt_map))
         else insert_hold_keys pairs prompt_fixed_ratio prompt_map)"

text \<open>
  \<^verbatim>\<open>dict(sorted(prompt_map.items()))\<close> followed by the loop over consecutive keys.
\<close>

definition add_hold_keys :: "(int, 'v) dict \<Rightarrow> rat \<Rightarrow> int \<Rightarrow> error + (int, 'v) dict" where
  "add_hold_keys prompt_map prompt_fixed_ratio video_length =
     (let prompt_map = sort_key fst prompt_map;
          key_list = dict_keys prompt_map
      in insert_hold_keys (zip key_list (tl key_list @ [video_length]))
           prompt_fixed_ratio prompt_map)"

text \<open>
  \<^verbatim>\<open>prompt_preprocess\<close>. The keys of the configuration are the strings of a JSON
  object; they are taken here after \<^verbatim>\<open>int(k)\<close>, so two entries may carry the same
  number and the later one wins. An empty \<^verbatim>\<open>head_prompt\<close> or \<^verbatim>\<open>tail_prompt\<close> is
  falsy.
\<close>

definition decorate_prompt :: "string \<Rightarrow> string \<Rightarrow> string \<Rightarrow> string" where
  "decorate_prompt head_prompt tail_prompt pr =
     (let pr = (if head_prompt \<noteq> [] then head_prompt @ '','' @ pr else pr)
      in if tail_prompt \<noteq> [] then pr @ '','' @ tail_prompt else pr)"

definition prompt_preprocess ::
  "(int \<times> string) list \<Rightarrow> string \<Rightarrow> string \<Rightarrow> rat \<Rightarrow> int \<Rightarrow> error + (int, string) dict" where
  "prompt_preprocess prompt_config_map head_prompt tail_prompt prompt_fixed_ratio video_length =
     (let prompt_map =
            fold (\<lambda>(k, pr) m.
                    if k < video_length
                    then dict_set k (decorate_prompt head_prompt tail_prompt pr) m else m)
              prompt_config_map []
      in add_hold_keys prompt_map prompt_fixed_ratio video_length)"

text \<open>
  Images are opaque except for what \<^verbatim>\<open>Image.new(mode, size, color=0)\<close> needs: a mode,
  a size and the pixel values. Resizing is not modelled: a configuration carries the
  images of a directory as \<^verbatim>\<open>sorted(glob(...))\<close> lists them, each with the frame number
  \<^verbatim>\<open>int(Path(img_path).stem)\<close> and already resized.
\<close>

datatype image = Image (img_mode: string) (img_size: "nat \<times> nat") (img_pixels: "nat list")

definition Image_new :: "string \<Rightarrow> nat \<times> nat \<Rightarrow> nat \<Rightarrow> image" where
  "Image_new m sz color = Image m sz (replicate (fst sz * snd sz) color)"

record ip_adapter_config =
  ip_enable :: bool
  ip_input_images :: "(int \<times> image) list"
  ip_prompt_fixed_ratio :: rat
  ip_scale :: rat
  ip_is_plus :: bool
  ip_is_plus_face :: "bool option"
  ip_is_light :: "bool option"

text \<open>
  \<^verbatim>\<open>ip_adapter_preprocess\<close> returns the dictionary \<^verbatim>\<open>{"images": ...}\<close> or \<^verbatim>\<open>None\<close>;
  the model returns the images. Saving the images to disk is left out.
\<close>

definition ip_adapter_preprocess ::
  "ip_adapter_config option \<Rightarrow> int \<Rightarrow> error + (int, image) dict option" where
  "ip_adapter_preprocess ip_adapter_config_map duration =
     (case ip_adapter_config_map of
        None \<Rightarrow> Inr None
      | Some cfg \<Rightarrow>
          if ip_enable cfg then
            (let images =
                   fold (\<lambda>(frame_no, img) m. if frame_no < duration then dict_set frame_no img m else m)
                     (ip_input_images cfg) [];
                 processed = list_ex (\<lambda>(frame_no, img). frame_no < duration) (ip_input_images cfg)
             in if processed then
                  (let prompt_fixed_ratio = max (min 1 (ip_prompt_fixed_ratio cfg)) 0
                   in case add_hold_keys images prompt_fixed_ratio duration of
                        Inl e \<Rightarrow> Inl e
                      | Inr m \<Rightarrow> Inr (Some m))
                else Inr None)
          else Inr None)"

text \<open>
  The extra key of a pair of consecutive keys as the specification words it:
  \<open>k0 + round((k1 - k0) * ratio)\<close>, less one when that is \<open>k1\<close>; the pairs of
  consecutive keys, the last key paired with \<open>duration\<close>; and the extra keys that
  differ from their \<open>k0\<close>.
\<close>

definition hold_key :: "int \<Rightarrow> int \<Rightarrow> rat \<Rightarrow> int" where
  "hold_key k0 k1 r =
     (let k05 = k0 + py_round (of_int (k1 - k0) * r)
      in if k05 = k1 then k05 - 1 else k05)"




section \<open>The per-frame query: \<^verbatim>\<open>get_current_prompt_embeds\<close>\<close>

text \<open>
  The \<^verbatim>\<open>for p in prompt_map.keys()\<close> loop with its \<^verbatim>\<open>break\<close>.
\<close>

fun find_keys :: "int list \<Rightarrow> int \<Rightarrow> int \<times> int \<Rightarrow> int \<times> int" where
  "find_keys [] center_frame (key_prev, key_next) = (key_prev, key_next)"
| "find_keys (p # ps) center_frame (key_prev, key_next) =
     (if p > center_frame then (key_prev, p)
      else find_keys ps center_frame (p, key_next))"

text \<open>
  \<^verbatim>\<open>prompt_embeds_map\<close> has the keys of the sorted \<^verbatim>\<open>prompt_map\<close>, in its order. The
  interpolation method comes from outside the file and is a parameter; the rate is the
  exact quotient.
\<close>

definition get_current_prompt_embeds ::
  "(int, 'e) dict \<Rightarrow> ('e \<Rightarrow> 'e \<Rightarrow> rat \<Rightarrow> 'e) \<Rightarrow> int \<Rightarrow> int \<Rightarrow> int \<Rightarrow> int \<Rightarrow> error + 'e" where
  "get_current_prompt_embeds prompt_embeds_map interpolate key_first key_last
       center_frame video_length =
     (let (key_prev, key_next) =
            find_keys (dict_keys prompt_embeds_map) center_frame (key_last, key_first);
          dist_prev = center_frame - key_prev;
          dist_prev = (if dist_prev < 0 then dist_prev + video_length else dist_prev);
          dist_next = key_next - center_frame;
          dist_next = (if dist_next < 0 then dist_next + video_length else dist_next)
      in if key_prev = key_next \<or> dist_prev + dist_next = 0
         then dict_get prompt_embeds_map key_prev
         else
           (let rate = of_int dist_prev / of_int (dist_prev + dist_next)
            in case dict_get prompt_embeds_map key_prev of
                 Inl e \<Rightarrow> Inl e
               | Inr a \<Rightarrow>
                   (case dict_get prompt_embeds_map key_next of
                      Inl e \<Rightarrow> Inl e
                    | Inr b \<Rightarrow> Inr (interpolate a b rate))))"

text \<open>
  \<^verbatim>\<open>key_first\<close> and \<^verbatim>\<open>key_last\<close> are read off the sorted map before the query is
  defined; on an empty map \<^verbatim>\<open>list(prompt_map.keys())[0]\<close> raises.
\<close>

definition upscale_query ::
  "(int, 'e) dict \<Rightarrow> ('e \<Rightarrow> 'e \<Rightarrow> rat \<Rightarrow> 'e) \<Rightarrow> int \<Rightarrow> int \<Rightarrow> error + 'e" where
  "upscale_query prompt_embeds_map interpolate center_frame video_length =
     (case dict_keys prompt_embeds_map of
        [] \<Rightarrow> Inl IndexError
      | key_first # _ \<Rightarrow>
          get_current_prompt_embeds prompt_embeds_map interpolate key_first
            (last (dict_keys prompt_embeds_map)) center_frame video_length)"

text \<open>
  The query as the specification words it: the greatest key at or before the frame (the
  last key when there is none), the smallest key after it (the first key when there is
  none), and the distances taken around a circle of \<open>duration\<close> frames.
\<close>

definition spec_key_prev :: "int list \<Rightarrow> int \<Rightarrow> int" where
  "spec_key_prev keys f =
     (if list_ex (\<lambda>k. k \<le> f) keys then Max (set (filter (\<lambda>k. k \<le> f) keys)) else last keys)"

definition spec_key_next :: "int list \<Rightarrow> int \<Rightarrow> int" where
  "spec_key_next keys f =
     (if list_ex (\<lambda>k. f < k) keys then Min (set (filter (\<lambda>k. f < k) keys)) else hd keys)"

definition circular_dist :: "int \<Rightarrow> int \<Rightarrow> int \<Rightarrow> int" where
  "circular_dist a b duration = (b - a) mod duration"

definition spec_query ::
  "(int, 'e) dict \<Rightarrow> ('e \<Rightarrow> 'e \<Rightarrow> rat \<Rightarrow> 'e) \<Rightarrow> int \<Rightarrow> int \<Rightarrow> error + 'e" where
  "spec_query m interpolate f duration =
     (let key_prev = spec_key_prev (dict_keys m) f;
          key_next = spec_key_next (dict_keys m) f;
          dp = circular_dist key_prev f duration;
          dn = circular_dist f key_next duration
      in if key_prev = key_next then dict_get m key_prev
         else
           (case dict_get m key_prev of
              Inl e \<Rightarrow> Inl e
            | Inr a \<Rightarrow>
                (case dict_get m key_next of
                   Inl e \<Rightarrow> Inl e
                 | Inr b \<Rightarrow> Inr (interpolate a b (of_int dp / of_int (dp + dn))))))"


section \<open>Mask schedules: \<^verbatim>\<open>mask_preprocess\<close>\<close>

record condition_config =
  cd_prompt_map :: "(int \<times> string) list"
  cd_head_prompt :: string
  cd_tail_prompt :: string
  cd_prompt_fixed_ratio :: rat
  cd_ip_adapter_map :: "ip_adapter_config option"

record region_config =
  rg_enable :: bool
  rg_is_init_img :: bool
  rg_mask_files :: "(int \<times> image) list"
  rg_condition :: condition_config

text \<open>
  The loading loop of \<^verbatim>\<open>mask_preprocess\<close> with its four variables.
\<close>

record mask_state =
  ms_mask_map :: "(int, image) dict"
  ms_size :: "(nat \<times> nat) option"
  ms_mode :: "string option"
  ms_processed :: bool

definition load_mask :: "int \<Rightarrow> int \<times> image \<Rightarrow> mask_state \<Rightarrow> mask_state" where
  "load_mask duration file st =
     (let frame_no = fst file; img = snd file
      in if frame_no < duration then
           st\<lparr>ms_mask_map := dict_set frame_no img (ms_mask_map st),
              ms_size := (if ms_size st = None then Some (img_size img) else ms_size st),
              ms_mode := (if ms_size st = None then Some (img_mode img) else ms_mode st),
              ms_processed := True\<rparr>
         else st)"

text \<open>
  The forward fill: \<^verbatim>\<open>for i in range(duration)\<close>, where a frame that is in the map
  becomes the image to repeat and a frame that is not receives the current one.
\<close>

fun fill_frames :: "int list \<Rightarrow> (int, image) dict \<Rightarrow> image \<Rightarrow> (int, image) dict" where
  "fill_frames [] mask_map prev_img = mask_map"
| "fill_frames (i # is) mask_map prev_img =
     (case map_of mask_map i of
        Some img \<Rightarrow> fill_frames is mask_map img
      | None \<Rightarrow> fill_frames is (dict_set i prev_img mask_map) prev_img)"

definition forward_fill ::
  "(int, image) dict \<Rightarrow> string \<Rightarrow> nat \<times> nat \<Rightarrow> int \<Rightarrow> (int, image) dict" where
  "forward_fill mask_map mode sz duration =
     (let prev_img = (case map_of mask_map 0 of
                        Some img \<Rightarrow> img
                      | None \<Rightarrow> Image_new mode sz 0)
      in fill_frames (py_range 0 duration) mask_map prev_img)"

text \<open>
  \<^verbatim>\<open>mask_preprocess\<close>: \<^verbatim>\<open>None\<close> unless a mask was loaded. \<^verbatim>\<open>Image.new\<close> needs a mode
  and a size; both are set with the first mask that is loaded. Saving the masks is left
  out.
\<close>

definition mask_preprocess ::
  "region_config option \<Rightarrow> int \<Rightarrow> error + (int, image) dict option" where
  "mask_preprocess region_config_map duration =
     (case region_config_map of
        None \<Rightarrow> Inr None
      | Some rc \<Rightarrow>
          (let st = fold (load_mask duration) (rg_mask_files rc)
                      \<lparr>ms_mask_map = [], ms_size = None, ms_mode = None, ms_processed = False\<rparr>
           in if ms_processed st then
                (case (ms_mode st, ms_size st) of
                   (Some m, Some sz) \<Rightarrow> Inr (Some (forward_fill (ms_mask_map st) m sz duration))
                 | _ \<Rightarrow> Inl TypeError)
              else Inr None))"


section \<open>The region composer: \<^verbatim>\<open>region_preprocess\<close>\<close>

text \<open>
  The keys of \<^verbatim>\<open>region_map\<close> are \<^verbatim>\<open>"background"\<close> and the numbers of the regions
  (\<^verbatim>\<open>int(r)\<close> names the region's directory).
\<close>

datatype region_key = Background | Region int

record model_config =
  mc_ip_adapter_map :: "ip_adapter_config option"
  mc_prompt_map :: "(int \<times> string) list"
  mc_head_prompt :: string
  mc_tail_prompt :: string
  mc_prompt_fixed_ratio :: rat
  mc_region_map :: "(region_key, region_config) dict"

record condition_map =
  cm_prompt_map :: "(int, string) dict"
  cm_ip_adapter_map :: "(int, image) dict option"

record region_entry =
  re_mask_images :: "(int, image) dict option"
  re_src :: int

record ip_adapter_settings =
  st_scale :: rat
  st_is_plus :: bool
  st_is_plus_face :: bool
  st_is_light :: bool

record region_state =
  region_condi_list :: "condition_map list"
  region_list :: "region_entry list"
  condi_index :: int
  prev_ip_map :: "(int, image) dict option"

text \<open>
  The block that \<^verbatim>\<open>region_preprocess\<close> runs for the background and again for every
  region with its own conditioning: preprocess the adapter images, remember them in
  \<^verbatim>\<open>prev_ip_map\<close> when there are any, append the bundle and advance \<^verbatim>\<open>condi_index\<close>.
\<close>

definition append_condition ::
  "ip_adapter_config option \<Rightarrow> (int \<times> string) list \<Rightarrow> string \<Rightarrow> string \<Rightarrow> rat \<Rightarrow> int
     \<Rightarrow> region_state \<Rightarrow> error + region_state" where
  "append_condition ip_cfg pm head_prompt tail_prompt ratio duration st =
     (case ip_adapter_preprocess ip_cfg duration of
        Inl e \<Rightarrow> Inl e
      | Inr ip_map \<Rightarrow>
          (case prompt_preprocess pm head_prompt tail_prompt ratio duration of
             Inl e \<Rightarrow> Inl e
           | Inr p \<Rightarrow>
               Inr (st\<lparr>region_condi_list :=
                          region_condi_list st @ [\<lparr>cm_prompt_map = p, cm_ip_adapter_map = ip_map\<rparr>],
                        condi_index := condi_index st + 1,
                        prev_ip_map := (if ip_map \<noteq> None then ip_map else prev_ip_map st)\<rparr>)))"

text \<open>
  The loop \<^verbatim>\<open>for r in model_config.region_map\<close>. \<^verbatim>\<open>region_map\<close> is a dictionary,
  so the loop meets every name once, together with its own configuration
  \<^verbatim>\<open>region_map[r]\<close>.
\<close>

fun region_loop ::
  "(region_key \<times> region_config) list \<Rightarrow> int \<Rightarrow> bool \<Rightarrow> region_state \<Rightarrow> error + region_state" where
  "region_loop [] duration is_init_img_exist st = Inr st"
| "region_loop ((r, rc) # rest) duration is_init_img_exist st =
     (if r = Background then region_loop rest duration is_init_img_exist st
      else if \<not> rg_enable rc then region_loop rest duration is_init_img_exist st
      else
        (case mask_preprocess (Some rc) duration of
           Inl e \<Rightarrow> Inl e
         | Inr mask_map \<Rightarrow>
             if mask_map = None \<or> mask_map = Some [] then
               region_loop rest duration is_init_img_exist st
             else if \<not> rg_is_init_img rc then
               (case append_condition (cd_ip_adapter_map (rg_condition rc))
                       (cd_prompt_map (rg_condition rc)) (cd_head_prompt (rg_condition rc))
                       (cd_tail_prompt (rg_condition rc))
                       (cd_prompt_fixed_ratio (rg_condition rc)) duration st of
                  Inl e \<Rightarrow> Inl e
                | Inr st' \<Rightarrow>
                    region_loop rest duration is_init_img_exist
                      (st'\<lparr>region_list := region_list st' @
                             [\<lparr>re_mask_images = mask_map, re_src = condi_index st\<rparr>]\<rparr>))
             else if \<not> is_init_img_exist then region_loop rest duration is_init_img_exist st
             else
               region_loop rest duration is_init_img_exist
                 (st\<lparr>region_list := region_list st @
                       [\<lparr>re_mask_images = mask_map, re_src = - 1\<rparr>]\<rparr>)))"

text \<open>
  The flag of the background and the first block: without the flag the background is
  source 0.
\<close>

definition is_bg_init_img :: "model_config \<Rightarrow> bool \<Rightarrow> bool" where
  "is_bg_init_img mc is_init_img_exist =
     (if is_init_img_exist then
        (if mc_region_map mc \<noteq> [] then
           (case map_of (mc_region_map mc) Background of
              Some bg \<Rightarrow> rg_is_init_img bg
            | None \<Rightarrow> False)
         else False)
      else False)"

definition background_condition :: "model_config \<Rightarrow> int \<Rightarrow> bool \<Rightarrow> error + region_state" where
  "background_condition mc duration is_init_img_exist =
     (let st0 = \<lparr>region_condi_list = [], region_list = [], condi_index = 0, prev_ip_map = None\<rparr>
      in if \<not> is_bg_init_img mc is_init_img_exist then
           (case append_condition (mc_ip_adapter_map mc) (mc_prompt_map mc) (mc_head_prompt mc)
                   (mc_tail_prompt mc) (mc_prompt_fixed_ratio mc) duration st0 of
              Inl e \<Rightarrow> Inl e
            | Inr st1 \<Rightarrow>
                Inr (st1\<lparr>region_list := [\<lparr>re_mask_images = None, re_src = condi_index st0\<rparr>]\<rparr>))
         else Inr (st0\<lparr>region_list := [\<lparr>re_mask_images = None, re_src = - 1\<rparr>]\<rparr>))"

text \<open>
  The bundles as they stand when the loop over the regions is over, before the adapter
  maps are filled in.
\<close>

definition collect_conditions :: "model_config \<Rightarrow> int \<Rightarrow> bool \<Rightarrow> error + region_state" where
  "collect_conditions mc duration is_init_img_exist =
     (case background_condition mc duration is_init_img_exist of
        Inl e \<Rightarrow> Inl e
      | Inr st \<Rightarrow> region_loop (mc_region_map mc) duration is_init_img_exist st)"

text \<open>
  The tail of \<^verbatim>\<open>region_preprocess\<close>: the shared adapter settings are read from
  \<^verbatim>\<open>model_config.ip_adapter_map\<close> (subscripting \<^verbatim>\<open>None\<close> raises), every bundle without
  an adapter map receives \<^verbatim>\<open>prev_ip_map\<close>, and an empty bundle list is refused.
\<close>

definition fill_ip_adapter ::
  "model_config \<Rightarrow> region_state \<Rightarrow> error + (condition_map list \<times> ip_adapter_settings option)" where
  "fill_ip_adapter mc st =
     (case prev_ip_map st of
        None \<Rightarrow> Inr (region_condi_list st, None)
      | Some prev \<Rightarrow>
          (case mc_ip_adapter_map mc of
             None \<Rightarrow> Inl TypeError
           | Some cfg \<Rightarrow>
               Inr (map (\<lambda>c. if cm_ip_adapter_map c = None
                              then c\<lparr>cm_ip_adapter_map := Some prev\<rparr> else c)
                      (region_condi_list st),
                    Some \<lparr>st_scale = ip_scale cfg, st_is_plus = ip_is_plus cfg,
                          st_is_plus_face = (case ip_is_plus_face cfg of Some b \<Rightarrow> b | None \<Rightarrow> False),
                          st_is_light = (case ip_is_light cfg of Some b \<Rightarrow> b | None \<Rightarrow> False)\<rparr>)))"

definition region_preprocess ::
  "model_config \<Rightarrow> int \<Rightarrow> bool
     \<Rightarrow> error + (condition_map list \<times> region_entry list \<times> ip_adapter_settings option)" where
  "region_preprocess mc duration is_init_img_exist =
     (case collect_conditions mc duration is_init_img_exist of
        Inl e \<Rightarrow> Inl e
      | Inr st \<Rightarrow>
          (case fill_ip_adapter mc st of
             Inl e \<Rightarrow> Inl e
           | Inr (condis, settings) \<Rightarrow>
               if condis = [] then Inl ValueError
               else Inr (condis, region_list st, settings)))"

text \<open>
  A region has masks when one of its mask files has a frame number below \<open>duration\<close>;
  an entry of \<^verbatim>\<open>region_map\<close> contributes a bundle when it is not the background, is
  enabled, has masks and does not reuse the initial image. \<open>last_ip_map\<close> is the adapter
  map of the last bundle that has one, and \<open>settings_of\<close> the shared settings read off
  an adapter configuration.
\<close>

definition has_masks :: "int \<Rightarrow> region_config \<Rightarrow> bool" where
  "has_masks duration rc = list_ex (\<lambda>file. fst file < duration) (rg_mask_files rc)"

definition contributes :: "int \<Rightarrow> region_key \<times> region_config \<Rightarrow> bool" where
  "contributes duration entry =
     (fst entry \<noteq> Background \<and> rg_enable (snd entry) \<and> has_masks duration (snd entry)
      \<and> \<not> rg_is_init_img (snd entry))"

definition last_ip_map :: "condition_map list \<Rightarrow> (int, image) dict option" where
  "last_ip_map cs =
     (let specified = filter (\<lambda>c. cm_ip_adapter_map c \<noteq> None) cs
      in if specified = [] then None else cm_ip_adapter_map (last specified))"

definition settings_of :: "ip_adapter_config \<Rightarrow> ip_adapter_settings" where
  "settings_of cfg =
     \<lparr>st_scale = ip_scale cfg, st_is_plus = ip_is_plus cfg,
      st_is_plus_face = (case ip_is_plus_face cfg of Some b \<Rightarrow> b | None \<Rightarrow> False),
      st_is_light = (case ip_is_light cfg of Some b \<Rightarrow> b | None \<Rightarrow> False)\<rparr>"


section \<open>Invariants used in the proofs\<close>

text \<open>
  The state of the copy loop of \<^verbatim>\<open>example_callback\<close> after \<open>k\<close> rounds, against the
  state \<open>st0\<close> at its start: the first \<open>k\<close> frames of the tensor at \<open>a\<close> are the
  trailing frames of the tensor at \<open>p\<close>, all else is as it was.
\<close>

definition overlap_inv ::
  "'f callback_state \<Rightarrow> 'f callback_state \<Rightarrow> addr \<Rightarrow> addr \<Rightarrow> nat \<Rightarrow> nat \<Rightarrow> bool" where
  "overlap_inv st0 st a p L k =
     (latents_cache st = latents_cache st0
      \<and> length (heap st a) = length (heap st0 a)
      \<and> (\<forall>i<k. heap st a ! i = heap st0 p ! (length (heap st0 a) - L + i))
      \<and> (\<forall>j. k \<le> j \<and> j < length (heap st0 a) \<longrightarrow> heap st a ! j = heap st0 a ! j)
      \<and> (\<forall>q. q \<noteq> a \<longrightarrow> heap st q = heap st0 q))"

text \<open>
  The loading loop of \<^verbatim>\<open>mask_preprocess\<close> after the files \<open>seen\<close>, and the region
  loop: \<^verbatim>\<open>prev_ip_map\<close> is the adapter map of the last bundle that has one.
\<close>

definition mask_inv :: "int \<Rightarrow> (int \<times> image) list \<Rightarrow> mask_state \<Rightarrow> bool" where
  "mask_inv duration seen st =
     (ms_processed st = list_ex (\<lambda>file. fst file < duration) seen
      \<and> (if ms_processed st
          then ms_size st \<noteq> None \<and> ms_mode st \<noteq> None \<and> ms_mask_map st \<noteq> []
          else ms_size st = None))"

definition region_inv :: "region_state \<Rightarrow> bool" where
  "region_inv st = (prev_ip_map st = last_ip_map (region_condi_list st))"


section \<open>Example configurations\<close>

text \<open>
  Two configurations to run the composer on. In the first the background and region 1
  have adapter images and region 0 has none; in the second the background reuses the
  initial image and the only region is disabled.
\<close>

definition example_ip_A :: ip_adapter_config where
  "example_ip_A =
     \<lparr>ip_enable = True, ip_input_images = [(0, Image ''RGB'' (1, 1) [1])],
      ip_prompt_fixed_ratio = 1, ip_scale = 1, ip_is_plus = True,
      ip_is_plus_face = None, ip_is_light = None\<rparr>"

definition example_ip_B :: ip_adapter_config where
  "example_ip_B =
     \<lparr>ip_enable = True, ip_input_images = [(0, Image ''RGB'' (1, 1) [2])],
      ip_prompt_fixed_ratio = 1, ip_scale = 1 / 2, ip_is_plus = False,
      ip_is_plus_face = Some True, ip_is_light = None\<rparr>"

definition example_region :: "string \<Rightarrow> ip_adapter_config option \<Rightarrow> region_config" where
  "example_region prompt ip =
     \<lparr>rg_enable = True, rg_is_init_img = False,
      rg_mask_files = [(0, Image ''L'' (1, 1) [255])],
      rg_condition =
        \<lparr>cd_prompt_map = [(0, prompt)], cd_head_prompt = [], cd_tail_prompt = [],
         cd_prompt_fixed_ratio = 1, cd_ip_adapter_map = ip\<rparr>\<rparr>"

definition example_model_config :: model_config where
  "example_model_config =
     \<lparr>mc_ip_adapter_map = Some example_ip_A, mc_prompt_map = [(0, ''bg'')],
      mc_head_prompt = [], mc_tail_prompt = [], mc_prompt_fixed_ratio = 1,
      mc_region_map = [(Region 0, example_region ''r0'' None),
                       (Region 1, example_region ''r1'' (Some example_ip_B))]\<rparr>"

definition init_only_config :: model_config where
  "init_only_config =
     \<lparr>mc_ip_adapter_map = None, mc_prompt_map = [(0, ''bg'')],
      mc_head_prompt = [], mc_tail_prompt = [], mc_prompt_fixed_ratio = 1,
      mc_region_map = [(Background, (example_region ''bg'' None)\<lparr>rg_is_init_img := True\<rparr>),
                       (Region 0, (example_region ''r0'' None)\<lparr>rg_enable := False\<rparr>)]\<rparr>"

section \<open>Facts about indexing and dictionaries\<close>

lemma upto_map_int: "[int a..int b - 1] = map int [a..<b]"
proof (induction b)
  case 0
  then show ?case by simp
next
  case (Suc b)
  show ?case
  proof (cases "a \<le> b")
    case True
    then have "[int a..int b] = [int a..int b - 1] @ [int b]"
      by (rule_tac upto_rec2) simp
    moreover have "int (Suc b) - 1 = int b" by simp
    ultimately show ?thesis using Suc True by simp
  next
    case False
    then show ?thesis by simp
  qed
qed

lemma py_range_nat: "py_range (int a) (int a + int w) = map int [a..<a + w]"
proof -
  have "int a + int w = int (a + w)" by simp
  then show ?thesis unfolding py_range_def using upto_map_int[of a "a + w"] by presburger
qed

lemma py_index_nat: "j < n \<Longrightarrow> py_index n (int j) = Some j"
  by (simp add: py_index_def)

lemma py_get_nat: "j < length xs \<Longrightarrow> py_get xs (int j) = Inr (xs ! j)"
  by (simp add: py_get_def py_index_nat)

lemma py_set_nat: "j < length xs \<Longrightarrow> py_set xs (int j) v = Inr (xs[j := v])"
  by (simp add: py_set_def py_index_nat)

lemma dict_get_mem: "k \<in> set (dict_keys d) \<Longrightarrow> \<exists>v. dict_get d k = Inr v"
  by (induction d) (auto simp: dict_keys_def)

lemma dict_get_nth:
  "distinct (dict_keys d) \<Longrightarrow> j < length d \<Longrightarrow> dict_get d (fst (d ! j)) = Inr (snd (d ! j))"
proof (induction d arbitrary: j)
  case Nil
  then show ?case by simp
next
  case (Cons p ps)
  show ?case
  proof (cases j)
    case 0
    then show ?thesis by simp
  next
    case (Suc i)
    with Cons.prems have i: "i < length ps" by simp
    then have "fst (ps ! i) \<in> set (dict_keys ps)" by (simp add: dict_keys_def)
    moreover have "fst p \<notin> set (dict_keys ps)"
      using Cons.prems by (simp add: dict_keys_def)
    ultimately have ne: "fst (ps ! i) \<noteq> fst p" by metis
    have "distinct (dict_keys ps)" using Cons.prems by (simp add: dict_keys_def)
    from Cons.IH[OF this i] have "dict_get ps (fst (ps ! i)) = Inr (snd (ps ! i))" .
    then show ?thesis using ne Suc by simp
  qed
qed

lemma dict_set_fresh: "k \<notin> set (dict_keys d) \<Longrightarrow> dict_set k v d = d @ [(k, v)]"
  by (induction d) (auto simp: dict_keys_def)

section \<open>The context window segmenter\<close>

lemma build_segment_total:
  "\<forall>j \<in> set js. j < length d \<Longrightarrow>
   \<exists>r. build_segment d (dict_keys d) prev (map int js) acc = Inr r"
proof (induction js arbitrary: acc)
  case Nil
  then show ?case by simp
next
  case (Cons j js)
  from Cons.prems have j: "j < length d" by simp
  then have "dict_keys d ! j \<in> set (dict_keys d)" by (simp add: dict_keys_def)
  from dict_get_mem[OF this] obtain v where v: "dict_get d (dict_keys d ! j) = Inr v" ..
  have g: "py_get (dict_keys d) (int j) = Inr (dict_keys d ! j)"
    using j by (simp add: py_get_nat dict_keys_def)
  from Cons.prems have "\<forall>j \<in> set js. j < length d" by simp
  from Cons.IH[OF this] obtain r where
    "build_segment d (dict_keys d) prev (map int js)
       (dict_set (dict_keys d ! j) v (fst acc),
        if dict_keys d ! j \<in> set prev then snd acc @ [dict_keys d ! j] else snd acc) = Inr r"
    by blast
  then show ?case
    by (simp add: g v)
qed



lemma slice_nat:
  "a + w \<le> length xs \<Longrightarrow> py_slice xs (int a) (int a + int w) = map ((!) xs) [a..<a + w]"
proof -
  assume h: "a + w \<le> length xs"
  have "py_clamp (length xs) (int a) = a" using h by (simp add: py_clamp_def)
  moreover have "py_clamp (length xs) (int a + int w) = a + w"
    using h by (simp add: py_clamp_def)
  ultimately have "py_slice xs (int a) (int a + int w) = take w (drop a xs)"
    by (simp add: py_slice_def)
  also have "\<dots> = map ((!) xs) [a..<a + w]"
    using h by (intro nth_equalityI) simp_all
  finally show ?thesis .
qed

lemma build_segment_exact:
  assumes "distinct (dict_keys d)"
    and "\<forall>j \<in> set js. j < length d"
    and "distinct js"
    and "\<forall>j \<in> set js. fst (d ! j) \<notin> set (dict_keys (fst acc))"
  shows "build_segment d (dict_keys d) prev (map int js) acc =
           Inr (fst acc @ map ((!) d) js,
                snd acc @ filter (\<lambda>k. k \<in> set prev) (map ((!) (dict_keys d)) js))"
  using assms(2-4)
proof (induction js arbitrary: acc)
  case Nil
  then show ?case by simp
next
  case (Cons j js)
  from Cons.prems have j: "j < length d" by simp
  have k: "dict_keys d ! j = fst (d ! j)" using j by (simp add: dict_keys_def)
  have g: "py_get (dict_keys d) (int j) = Inr (fst (d ! j))"
    using j k by (simp add: py_get_nat dict_keys_def)
  have v: "dict_get d (fst (d ! j)) = Inr (snd (d ! j))"
    using dict_get_nth[OF assms(1) j] .
  have fresh: "fst (d ! j) \<notin> set (dict_keys (fst acc))" using Cons.prems by simp
  have s: "dict_set (fst (d ! j)) (snd (d ! j)) (fst acc) = fst acc @ [d ! j]"
    using dict_set_fresh[OF fresh] by simp
  let ?acc = "(fst acc @ [d ! j],
     if fst (d ! j) \<in> set prev then snd acc @ [fst (d ! j)] else snd acc)"
  have p1: "\<forall>i \<in> set js. i < length d" using Cons.prems by simp
  have p2: "distinct js" using Cons.prems by simp
  have p3: "\<forall>i \<in> set js. fst (d ! i) \<notin> set (dict_keys (fst ?acc))"
  proof
    fix i assume i: "i \<in> set js"
    then have "i < length d" "i \<noteq> j" using Cons.prems by auto
    moreover have "i < length (dict_keys d)" "j < length (dict_keys d)"
      using \<open>i < length d\<close> j by (simp_all add: dict_keys_def)
    ultimately have "dict_keys d ! i \<noteq> dict_keys d ! j"
      using nth_eq_iff_index_eq[OF assms(1), of i j] by simp
    then have "fst (d ! i) \<noteq> fst (d ! j)"
      using \<open>i < length d\<close> j by (simp add: dict_keys_def)
    moreover have "fst (d ! i) \<notin> set (dict_keys (fst acc))" using Cons.prems i by simp
    ultimately show "fst (d ! i) \<notin> set (dict_keys (fst ?acc))"
      by (simp add: dict_keys_def)
  qed
  have "build_segment d (dict_keys d) prev (map int (j # js)) acc =
        build_segment d (dict_keys d) prev (map int js) ?acc"
    by (simp add: g v s)
  also have "\<dots> = Inr (fst ?acc @ map ((!) d) js,
                snd ?acc @ filter (\<lambda>k. k \<in> set prev) (map ((!) (dict_keys d)) js))"
    by (rule Cons.IH[OF p1 p2 p3])
  also have "\<dots> = Inr (fst acc @ map ((!) d) (j # js),
                snd acc @ filter (\<lambda>k. k \<in> set prev) (map ((!) (dict_keys d)) (j # js)))"
    using k by simp
  finally show ?case .
qed

lemma overlap_filter:
  assumes "distinct ks" and "p \<le> s" and "s \<le> c" and "c \<le> e" and "e \<le> length ks"
  shows "filter (\<lambda>k. k \<in> set (map ((!) ks) [p..<c])) (map ((!) ks) [s..<e]) = map ((!) ks) [s..<c]"
proof -
  have mem: "(ks ! j \<in> set (map ((!) ks) [p..<c])) = (p \<le> j \<and> j < c)" if "j < length ks" for j
  proof
    assume "ks ! j \<in> set (map ((!) ks) [p..<c])"
    then obtain i where i: "p \<le> i" "i < c" "ks ! j = ks ! i" by auto
    then have "i < length ks" using assms by simp
    with i that assms(1) have "j = i" by (simp add: nth_eq_iff_index_eq)
    with i show "p \<le> j \<and> j < c" by simp
  next
    assume "p \<le> j \<and> j < c"
    then show "ks ! j \<in> set (map ((!) ks) [p..<c])" by simp
  qed
  have split: "[s..<e] = [s..<c] @ [c..<e]"
    using assms by (metis le_Suc_ex upt_add_eq_append)
  have f1: "filter (\<lambda>j. ks ! j \<in> set (map ((!) ks) [p..<c])) [s..<e]
        = filter (\<lambda>j. p \<le> j \<and> j < c) [s..<e]"
    using mem assms by (intro filter_cong) auto
  have f2: "filter (\<lambda>j. p \<le> j \<and> j < c) [s..<e] = [s..<c]"
    unfolding split using assms by (simp add: filter_id_conv filter_empty_conv)
  have "filter (\<lambda>k. k \<in> set (map ((!) ks) [p..<c])) (map ((!) ks) [s..<e])
        = map ((!) ks) (filter (\<lambda>j. ks ! j \<in> set (map ((!) ks) [p..<c])) [s..<e])"
    by (simp add: filter_map comp_def)
  also have "\<dots> = map ((!) ks) [s..<c]"
    by (simp only: f1 f2)
  finally show ?thesis .
qed

lemma window_step:
  assumes "distinct (dict_keys d)" and "p \<le> s" and "s \<le> c" and "c \<le> s + w"
    and "s + w \<le> length d"
  shows "build_segment d (dict_keys d) (map ((!) (dict_keys d)) [p..<c])
           (py_range (int s) (int s + int w)) ([], []) =
         Inr (map ((!) d) [s..<s + w], map ((!) (dict_keys d)) [s..<c])"
proof -
  have len: "length (dict_keys d) = length d" by (simp add: dict_keys_def)
  have a1: "\<forall>j\<in>set [s..<s + w]. j < length d" using assms by simp
  have a2: "distinct [s..<s + w]" by simp
  have a3: "\<forall>j\<in>set [s..<s + w]. fst (d ! j) \<notin> set (dict_keys (fst (([], []) :: ('a, 'b) dict \<times> 'a list)))"
    by (simp add: dict_keys_def)
  have "build_segment d (dict_keys d) (map ((!) (dict_keys d)) [p..<c])
           (map int [s..<s + w]) ([], []) =
        Inr (map ((!) d) [s..<s + w],
             filter (\<lambda>k. k \<in> set (map ((!) (dict_keys d)) [p..<c]))
                (map ((!) (dict_keys d)) [s..<s + w]))"
    using build_segment_exact[OF assms(1) a1 a2 a3, of "map ((!) (dict_keys d)) [p..<c]"]
    by simp
  moreover have "filter (\<lambda>k. k \<in> set (map ((!) (dict_keys d)) [p..<c]))
                (map ((!) (dict_keys d)) [s..<s + w]) = map ((!) (dict_keys d)) [s..<c]"
    using assms len by (intro overlap_filter) simp_all
  ultimately show ?thesis by (simp add: py_range_nat)
qed

lemma trim_all_Cons:
  "trim_all (seg # segs) (ov # ovs) = drop (length ov) (dict_keys seg) @ trim_all segs ovs"
  by (simp add: trim_all_def)

lemma trim_all_Nil: "trim_all [] [] = []"
  by (simp add: trim_all_def)

lemma segment_loop_covers:
  fixes W ov :: nat
  assumes dist: "distinct (dict_keys d)" and ov: "ov < W"
  shows "p \<le> s \<Longrightarrow> s \<le> c \<Longrightarrow> c \<le> s + W \<Longrightarrow> c < length d \<Longrightarrow> p + W \<le> length d \<Longrightarrow>
    \<exists>segs ovs.
      segment_loop d (dict_keys d) (int W) (int ov) (int s)
          (map ((!) (dict_keys d)) [p..<c]) acc
        = Some (Inr (fst acc @ segs, snd acc @ ovs))
      \<and> length segs = length ovs \<and> segs \<noteq> []
      \<and> (c = 0 \<longrightarrow> hd ovs = [])
      \<and> (\<forall>seg \<in> set segs. length seg = W)
      \<and> list_all2 overlap_is_prefix segs ovs
      \<and> trim_all segs ovs = map ((!) (dict_keys d)) [c..<length d]"
proof (induction "length d - s" arbitrary: s p c acc rule: less_induct)
  case less
  let ?N = "length d"
  let ?ks = "dict_keys d"
  define s' where "s' = (if ?N < s + W then ?N - W else s)"
  have s'1: "p \<le> s'" "s' \<le> c" "c \<le> s' + W" "s' + W \<le> ?N"
    using less.prems by (auto simp: s'_def)
  have s'int: "(if int ?N - int s < int W then int ?N - int W else int s) = int s'"
    using less.prems by (auto simp: s'_def)
  have len: "length ?ks = ?N" by (simp add: dict_keys_def)
  let ?seg = "map ((!) d) [s'..<s' + W]"
  let ?ovl = "map ((!) ?ks) [s'..<c]"
  have bs: "build_segment d ?ks (map ((!) ?ks) [p..<c])
           (py_range (int s') (int s' + int W)) ([], []) = Inr (?seg, ?ovl)"
    using window_step[OF dist s'1] .
  have sl: "py_slice ?ks (int s') (int s' + int W) = map ((!) ?ks) [s'..<s' + W]"
    using s'1 len by (intro slice_nat) simp
  let ?acc = "(fst acc @ [?seg], snd acc @ [?ovl])"
  have step: "segment_loop d ?ks (int W) (int ov) (int s) (map ((!) ?ks) [p..<c]) acc =
     (if s' + W \<ge> ?N then Some (Inr ?acc)
      else segment_loop d ?ks (int W) (int ov) (int s + int W - int ov)
             (map ((!) ?ks) [s'..<s' + W]) ?acc)"
    apply (subst segment_loop.simps)
    using less.prems
    apply (simp only: len s'int Let_def bs sl sum.case fst_conv snd_conv)
    apply simp
    done
  have keys_seg: "dict_keys ?seg = map ((!) ?ks) [s'..<s' + W]"
    using s'1 by (simp add: dict_keys_def)
  have trim1: "drop (length ?ovl) (dict_keys ?seg) = map ((!) ?ks) [c..<s' + W]"
    using s'1 by (simp add: keys_seg drop_map)
  have pre: "overlap_is_prefix ?seg ?ovl"
    using s'1 by (simp add: overlap_is_prefix_def keys_seg take_map)
  show ?case
  proof (cases "s' + W \<ge> ?N")
    case True
    then have e: "s' + W = ?N" using s'1 by simp
    have "segment_loop d ?ks (int W) (int ov) (int s) (map ((!) ?ks) [p..<c]) acc
          = Some (Inr (fst acc @ [?seg], snd acc @ [?ovl]))"
      using step True by simp
    moreover have "trim_all [?seg] [?ovl] = map ((!) ?ks) [c..<?N]"
      using trim1 e by (simp add: trim_all_Cons trim_all_Nil)
    moreover have "c = 0 \<longrightarrow> hd [?ovl] = []" using s'1 by simp
    ultimately show ?thesis using pre by (intro exI[of _ "[?seg]"] exI[of _ "[?ovl]"]) simp
  next
    case False
    then have s'eq: "s' = s" using s'1 by (simp add: s'_def split: if_splits)
    let ?s2 = "s + W - ov"
    have s2int: "int s + int W - int ov = int ?s2" using ov by simp
    have rec: "segment_loop d ?ks (int W) (int ov) (int s) (map ((!) ?ks) [p..<c]) acc
          = segment_loop d ?ks (int W) (int ov) (int ?s2)
             (map ((!) ?ks) [s..<s + W]) ?acc"
    proof -
      have "segment_loop d ?ks (int W) (int ov) (int s) (map ((!) ?ks) [p..<c]) acc
          = segment_loop d ?ks (int W) (int ov) (int s + int W - int ov)
             (map ((!) ?ks) [s'..<s' + W]) ?acc"
        using False by (simp only: step if_False)
      then show ?thesis by (simp only: s'eq s2int)
    qed
    have m: "?N - ?s2 < ?N - s" using ov False s'eq by simp
    have q: "s \<le> ?s2" "?s2 \<le> s + W" "s + W \<le> ?s2 + W" "s + W < ?N" "s + W \<le> ?N"
      using ov False s'eq by simp_all
    from less.hyps[OF m q, of ?acc]
    obtain segs ovs where
      r: "segment_loop d ?ks (int W) (int ov) (int ?s2) (map ((!) ?ks) [s..<s + W]) ?acc
            = Some (Inr (fst ?acc @ segs, snd ?acc @ ovs))"
      and l: "length segs = length ovs"
      and sz: "\<forall>seg \<in> set segs. length seg = W"
      and pf: "list_all2 overlap_is_prefix segs ovs"
      and t: "trim_all segs ovs = map ((!) ?ks) [s + W..<?N]"
      by blast
    have "[c..<?N] = [c..<s + W] @ [s + W..<?N]"
      using s'1 s'eq by (metis le_Suc_ex upt_add_eq_append)
    then have "trim_all (?seg # segs) (?ovl # ovs) = map ((!) ?ks) [c..<?N]"
      using trim1 t s'eq by (simp add: trim_all_Cons)
    moreover have "segment_loop d ?ks (int W) (int ov) (int s) (map ((!) ?ks) [p..<c]) acc
          = Some (Inr (fst acc @ (?seg # segs), snd acc @ (?ovl # ovs)))"
      using rec r by simp
    moreover have "c = 0 \<longrightarrow> hd (?ovl # ovs) = []" using s'1 by simp
    ultimately show ?thesis using l sz pf pre
      by (intro exI[of _ "?seg # segs"] exI[of _ "?ovl # ovs"]) simp
  qed
qed

lemma trimmed_concat_trim_all:
  assumes "length segs = length ovs"
  shows "trimmed_concat (seg # segs) ([] # ovs) = trim_all (seg # segs) ([] # ovs)"
proof -
  have "map (\<lambda>i. drop (length (([] # ovs) ! i)) (dict_keys ((seg # segs) ! i)))
          [1..<length (seg # segs)]
        = map (\<lambda>i. drop (length (ovs ! i)) (dict_keys (segs ! i))) [0..<length segs]"
    by (simp add: map_Suc_upt[symmetric] del: upt_Suc)
  also have "\<dots> = map2 (\<lambda>seg ov. drop (length ov) (dict_keys seg)) segs ovs"
    using assms by (intro nth_equalityI) simp_all
  finally show ?thesis
    by (simp add: trimmed_concat_def trim_all_def)
qed

lemma segment_loop_total:
  fixes W ov :: nat
  assumes ov: "ov < W" and W: "W \<le> length d"
  shows "\<exists>r. segment_loop d (dict_keys d) (int W) (int ov) (int s) prev acc = Some (Inr r)"
proof (induction "length d - s" arbitrary: s prev acc rule: less_induct)
  case less
  let ?N = "length d"
  let ?ks = "dict_keys d"
  have len: "length ?ks = ?N" by (simp add: dict_keys_def)
  show ?case
  proof (cases "s < ?N")
    case False
    then show ?thesis
      by (subst segment_loop.simps) (simp add: len)
  next
    case True
    define s' where "s' = (if ?N < s + W then ?N - W else s)"
    have s'1: "s' + W \<le> ?N" using W by (auto simp: s'_def)
    have s'int: "(if int ?N - int s < int W then int ?N - int W else int s) = int s'"
      using W by (auto simp: s'_def)
    have "\<forall>j \<in> set [s'..<s' + W]. j < ?N" using s'1 by simp
    from build_segment_total[OF this, of prev "([], [])"]
    obtain cur where
      bs: "build_segment d ?ks prev (py_range (int s') (int s' + int W)) ([], []) = Inr cur"
      by (auto simp: py_range_nat)
    let ?acc = "(fst acc @ [fst cur], snd acc @ [snd cur])"
    have step: "segment_loop d ?ks (int W) (int ov) (int s) prev acc =
       (if s' + W \<ge> ?N then Some (Inr ?acc)
        else segment_loop d ?ks (int W) (int ov) (int s + int W - int ov)
               (py_slice ?ks (int s') (int s' + int W)) ?acc)"
      apply (subst segment_loop.simps)
      using True
      apply (simp only: len s'int Let_def bs sum.case)
      apply simp
      done
    show ?thesis
    proof (cases "s' + W \<ge> ?N")
      case True
      then show ?thesis using step by simp
    next
      case False
      let ?s2 = "s + W - ov"
      have s2int: "int s + int W - int ov = int ?s2" using ov by simp
      have m: "?N - ?s2 < ?N - s" using ov \<open>s < ?N\<close> by simp
      from less.hyps[OF m, of "py_slice ?ks (int s') (int s' + int W)" ?acc]
      obtain r where "segment_loop d ?ks (int W) (int ov) (int ?s2)
               (py_slice ?ks (int s') (int s' + int W)) ?acc = Some (Inr r)" ..
      moreover have "segment_loop d ?ks (int W) (int ov) (int s) prev acc =
          segment_loop d ?ks (int W) (int ov) (int ?s2)
               (py_slice ?ks (int s') (int s' + int W)) ?acc"
      proof -
        have "segment_loop d ?ks (int W) (int ov) (int s) prev acc =
          segment_loop d ?ks (int W) (int ov) (int s + int W - int ov)
               (py_slice ?ks (int s') (int s' + int W)) ?acc"
          using False by (simp only: step if_False)
        then show ?thesis by (simp only: s2int)
      qed
      ultimately show ?thesis by simp
    qed
  qed
qed

text \<open>
  Claim C1 (segmenter coverage). For a dictionary (distinct keys) of \<open>N\<close> keys and
  \<open>N \<ge> W > O \<ge> 0\<close>, \<^verbatim>\<open>segment_dict\<close> returns windows and overlap lists, and window 0
  whole followed by every later window without its first \<open>len(overlaps[i])\<close> keys is
  the original key sequence: every key once, in order. Every window has \<open>W\<close> keys,
  and the overlap list of a later window is the front of that window.
\<close>

theorem segment_dict_coverage:
  assumes "distinct (dict_keys dictionary)"
    and "int (length (dict_keys dictionary)) \<ge> W" and "W > ov" and "ov \<ge> 0"
  shows "\<exists>segments overlaps.
           segment_dict dictionary W ov = Some (Inr (segments, overlaps))
           \<and> trimmed_concat segments overlaps = dict_keys dictionary
           \<and> (\<forall>seg \<in> set segments. int (length seg) = W)
           \<and> (\<forall>i. 0 < i \<and> i < length segments \<longrightarrow>
                 take (length (overlaps ! i)) (dict_keys (segments ! i)) = overlaps ! i)"
proof -
  let ?ks = "dict_keys dictionary"
  have len: "length ?ks = length dictionary" by (simp add: dict_keys_def)
  obtain w where w: "W = int w" using assms(3,4) by (metis nat_0_le order.strict_implies_order order_trans)
  obtain v where v: "ov = int v" using assms(4) by (metis nat_0_le)
  have vw: "v < w" using assms(3) w v by simp
  have wN: "w \<le> length dictionary" using assms(2) w len by simp
  show ?thesis
  proof (cases "w = length dictionary")
    case True
    then have "segment_dict dictionary W ov = Some (Inr ([dictionary], []))"
      by (simp add: segment_dict_def w len)
    moreover have "trimmed_concat [dictionary] [] = ?ks"
      by (simp add: trimmed_concat_def)
    moreover have "\<forall>seg \<in> set [dictionary]. int (length seg) = W"
      using True w by simp
    moreover have "\<forall>i. 0 < i \<and> i < length [dictionary] \<longrightarrow>
                 take (length ([] ! i)) (dict_keys ([dictionary] ! i)) = ([] :: 'a list list) ! i"
      by simp
    ultimately show ?thesis by blast
  next
    case False
    then have lt: "w < length dictionary" using wN by simp
    have sd: "segment_dict dictionary W ov =
              segment_loop dictionary ?ks (int w) (int v) (int 0) (map ((!) ?ks) [0..<0]) ([], [])"
      using lt by (simp add: segment_dict_def w v len)
    have "0 < length dictionary" using lt by (cases dictionary) simp_all
    from segment_loop_covers[OF assms(1) vw le_refl le_refl _ this, of "([], [])"] wN
    obtain segs ovs where
      r: "segment_loop dictionary ?ks (int w) (int v) (int 0) (map ((!) ?ks) [0..<0]) ([], [])
            = Some (Inr (segs, ovs))"
      and l: "length segs = length ovs" and ne: "segs \<noteq> []" and h: "hd ovs = []"
      and sz: "\<forall>seg \<in> set segs. length seg = w"
      and pf: "list_all2 overlap_is_prefix segs ovs"
      and t: "trim_all segs ovs = map ((!) ?ks) [0..<length dictionary]"
      by auto
    from ne l obtain seg segs' ovs' where c: "segs = seg # segs'" "ovs = [] # ovs'"
      "length segs' = length ovs'"
      using h by (cases segs; cases ovs) auto
    have "trimmed_concat segs ovs = trim_all segs ovs"
      unfolding c using trimmed_concat_trim_all[OF c(3)] .
    also have "\<dots> = ?ks" using t len map_nth[of ?ks] by simp
    finally have tc: "trimmed_concat segs ovs = ?ks" .
    have ws: "\<forall>seg \<in> set segs. int (length seg) = W" using sz w by simp
    have px: "\<forall>i. 0 < i \<and> i < length segs \<longrightarrow>
                 take (length (ovs ! i)) (dict_keys (segs ! i)) = ovs ! i"
    proof (intro allI impI)
      fix i assume "0 < i \<and> i < length segs"
      then have "overlap_is_prefix (segs ! i) (ovs ! i)"
        using pf by (simp add: list_all2_nthD)
      then show "take (length (ovs ! i)) (dict_keys (segs ! i)) = ovs ! i"
        by (simp add: overlap_is_prefix_def)
    qed
    show ?thesis using sd r tc ws px by simp
  qed
qed

theorem segment_dict_coverage_witness:
  "\<exists>segments overlaps.
     segment_dict [(0::int, ''a''), (1, ''b''), (2, ''c''), (3, ''d''), (4, ''e'')] 3 1
       = Some (Inr (segments, overlaps))
     \<and> trimmed_concat segments overlaps = [0, 1, 2, 3, 4]"
proof -
  let ?d = "[(0::int, ''a''), (1, ''b''), (2, ''c''), (3, ''d''), (4, ''e'')]"
  have h: "distinct (dict_keys ?d)" "int (length (dict_keys ?d)) \<ge> 3" "(3::int) > 1" "(1::int) \<ge> 0"
    by (simp_all add: dict_keys_def)
  have k: "dict_keys ?d = [0, 1, 2, 3, 4]" by (simp add: dict_keys_def)
  from segment_dict_coverage[OF h] show ?thesis unfolding k by blast
qed

text \<open>
  Claim C10 (segmenter termination). With at least \<open>segment_size\<close> keys and
  \<open>0 \<le> overlap < segment_size\<close> the loop of \<^verbatim>\<open>segment_dict\<close> ends and the function
  returns its two lists: the result is neither the run that never returns (\<open>None\<close>)
  nor an exception.
\<close>

theorem segment_dict_terminates:
  assumes "int (length (dict_keys dictionary)) \<ge> W" and "0 \<le> ov" and "ov < W"
  shows "\<exists>segments overlaps. segment_dict dictionary W ov = Some (Inr (segments, overlaps))"
proof -
  let ?ks = "dict_keys dictionary"
  have len: "length ?ks = length dictionary" by (simp add: dict_keys_def)
  obtain w where w: "W = int w" using assms(2,3) by (metis nat_0_le order.strict_implies_order order_trans)
  obtain v where v: "ov = int v" using assms(2) by (metis nat_0_le)
  have vw: "v < w" using assms(3) w v by simp
  have wN: "w \<le> length dictionary" using assms(1) w len by simp
  from segment_loop_total[OF vw wN, of 0 "[]" "([], [])"]
  obtain r where "segment_loop dictionary ?ks (int w) (int v) (int 0) [] ([], []) = Some (Inr r)" ..
  then show ?thesis
    using wN by (cases r) (simp add: segment_dict_def w v len)
qed

theorem segment_dict_terminates_witness:
  "\<exists>segments overlaps.
     segment_dict [(0::int, ''a''), (1, ''b''), (2, ''c''), (3, ''d'')] 3 2
       = Some (Inr (segments, overlaps))"
  using segment_dict_terminates[of 3 "[(0::int, ''a''), (1, ''b''), (2, ''c''), (3, ''d'')]" 2]
  by (simp add: dict_keys_def)

section \<open>The latent continuity enforcer\<close>

lemma copy_overlap_inv:
  assumes cache: "latents_cache st0 (idx - 1) = Some m" "m iteration = Some p"
    and LF: "L \<le> length (heap st0 a)" and Fp: "length (heap st0 a) \<le> length (heap st0 p)"
  shows "k \<le> L \<Longrightarrow> overlap_inv st0 st a p L k \<Longrightarrow>
         \<exists>st'. copy_overlap st idx iteration a L [k..<L] = Inr st' \<and> overlap_inv st0 st' a p L L"
proof (induction "L - k" arbitrary: k st)
  case 0
  then have "k = L" by simp
  with 0 show ?case by simp
next
  case (Suc n)
  let ?F = "length (heap st0 a)"
  from Suc have kL: "k < L" by simp
  have inv: "latents_cache st = latents_cache st0" "length (heap st a) = ?F"
    "\<forall>i<k. heap st a ! i = heap st0 p ! (?F - L + i)"
    "\<forall>j. k \<le> j \<and> j < ?F \<longrightarrow> heap st a ! j = heap st0 a ! j"
    "\<forall>q. q \<noteq> a \<longrightarrow> heap st q = heap st0 q"
    using Suc.prems(2) by (simp_all add: overlap_inv_def)
  let ?last = "?F - L + k"
  have lastF: "?last < ?F" "k \<le> ?last" using kL LF by simp_all
  have last_int: "int (length (heap st a)) - int L + int k = int ?last"
    using inv(2) LF by simp
  have rd: "heap st p ! ?last = heap st0 p ! ?last \<and> ?last < length (heap st p)"
  proof (cases "p = a")
    case True
    then show ?thesis using inv(2,4) lastF by simp
  next
    case False
    then have "heap st p = heap st0 p" using inv(5) by simp
    then show ?thesis using lastF Fp by simp
  qed
  let ?frame = "heap st0 p ! ?last"
  have g: "py_get (heap st p) (int ?last) = Inr ?frame"
    using rd py_get_nat[of ?last "heap st p"] by simp
  have kF: "k < length (heap st a)" using kL LF inv(2) by simp
  let ?buf = "(heap st a)[k := ?frame]"
  have w: "py_set (heap st a) (int k) ?frame = Inr ?buf"
    using py_set_nat[OF kF] .
  let ?st = "st\<lparr>heap := (heap st)(a := ?buf)\<rparr>"
  have step: "copy_overlap st idx iteration a L (k # [Suc k..<L]) =
              copy_overlap ?st idx iteration a L [Suc k..<L]"
    by (simp add: inv(1) cache last_int g w del: of_nat_add of_nat_diff)
  have inv': "overlap_inv st0 ?st a p L (Suc k)"
    unfolding overlap_inv_def
  proof (intro conjI allI impI)
    show "latents_cache ?st = latents_cache st0" using inv(1) by simp
    show "length (heap ?st a) = ?F" using inv(2) by simp
    show "heap ?st a ! i = heap st0 p ! (?F - L + i)" if "i < Suc k" for i
    proof (cases "i = k")
      case True
      then show ?thesis using kF by simp
    next
      case False
      with that have "i < k" by simp
      then show ?thesis using inv(3) False by simp
    qed
    show "heap ?st a ! j = heap st0 a ! j" if "Suc k \<le> j \<and> j < ?F" for j
      using that inv(4) by simp
    show "heap ?st q = heap st0 q" if "q \<noteq> a" for q
      using that inv(5) by simp
  qed
  have "n = L - Suc k" using Suc.hyps(2) by simp
  from Suc.hyps(1)[OF this _ inv'] kL
  obtain st' where "copy_overlap ?st idx iteration a L [Suc k..<L] = Inr st'"
    "overlap_inv st0 st' a p L L" by auto
  moreover have "[k..<L] = k # [Suc k..<L]" using kL by (simp add: upt_conv_Cons)
  ultimately show ?case using step by simp
qed

text \<open>
  Claim C2 (latent continuity). For a window index \<open>idx > 0\<close> whose overlap list is
  no longer than the buffer, with the previous window's buffer of the same iteration in
  the cache and at least as long, the callback returns, and afterwards frame \<open>i\<close> of
  the buffer, for every position \<open>i\<close> of the overlap list, is frame
  \<open>frames - len(overlap_keys) + i\<close> of the previous window's cached buffer; the frames
  past the overlap prefix and every other tensor are unchanged, so the previous buffer
  still holds these frames when it is another tensor than the current one.
\<close>

theorem example_callback_continuity:
  assumes "idx > 0"
    and "py_get overlaps idx = Inr overlap_keys"
    and "latents_cache st (idx - 1) = Some per_iteration"
    and "per_iteration iteration = Some last_latents"
    and "length overlap_keys \<le> length (heap st latents)"
    and "length (heap st latents) \<le> length (heap st last_latents)"
  shows "\<exists>st'. example_callback overlaps st idx iteration latents = Inr st'
           \<and> length (heap st' latents) = length (heap st latents)
           \<and> (\<forall>i < length overlap_keys.
                 heap st' latents ! i =
                 heap st last_latents ! (length (heap st latents) - length overlap_keys + i))
           \<and> (\<forall>j. length overlap_keys \<le> j \<and> j < length (heap st latents)
                  \<longrightarrow> heap st' latents ! j = heap st latents ! j)
           \<and> (\<forall>q. q \<noteq> latents \<longrightarrow> heap st' q = heap st q)
           \<and> (last_latents \<noteq> latents \<longrightarrow>
                (\<forall>i < length overlap_keys.
                   heap st' latents ! i =
                   heap st' last_latents ! (length (heap st' latents) - length overlap_keys + i)))
           \<and> latents_cache st' (idx - 1) = Some per_iteration
           \<and> (\<exists>m. latents_cache st' idx = Some m \<and> m iteration = Some latents)"
proof -
  let ?st1 = "cache_latents st idx iteration latents"
  let ?L = "length overlap_keys"
  have h1: "heap ?st1 = heap st" by (simp add: cache_latents_def Let_def)
  have c1: "latents_cache ?st1 (idx - 1) = Some per_iteration"
    using assms(3) by (simp add: cache_latents_def Let_def)
  have c2: "\<exists>m. latents_cache ?st1 idx = Some m \<and> m iteration = Some latents"
    by (simp add: cache_latents_def Let_def)
  have inv0: "overlap_inv ?st1 ?st1 latents last_latents ?L 0"
    by (simp add: overlap_inv_def)
  have LF: "?L \<le> length (heap ?st1 latents)" using assms(5) h1 by simp
  have Fp: "length (heap ?st1 latents) \<le> length (heap ?st1 last_latents)"
    using assms(6) h1 by simp
  from copy_overlap_inv[OF c1 assms(4) LF Fp _ inv0]
  obtain st' where r: "copy_overlap ?st1 idx iteration latents ?L [0..<?L] = Inr st'"
    and inv: "overlap_inv ?st1 st' latents last_latents ?L ?L" by auto
  have "example_callback overlaps st idx iteration latents = Inr st'"
    using assms(1,2) r by (simp add: example_callback_def Let_def)
  moreover have "length (heap st' latents) = length (heap st latents)"
    using inv h1 by (simp add: overlap_inv_def)
  moreover have "\<forall>i < ?L. heap st' latents ! i =
                 heap st last_latents ! (length (heap st latents) - ?L + i)"
    using inv h1 by (simp add: overlap_inv_def)
  moreover have "\<forall>j. ?L \<le> j \<and> j < length (heap st latents)
                  \<longrightarrow> heap st' latents ! j = heap st latents ! j"
    using inv h1 by (simp add: overlap_inv_def)
  moreover have "\<forall>q. q \<noteq> latents \<longrightarrow> heap st' q = heap st q"
    using inv h1 by (simp add: overlap_inv_def)
  moreover have "last_latents \<noteq> latents \<longrightarrow>
                (\<forall>i < ?L. heap st' latents ! i =
                   heap st' last_latents ! (length (heap st' latents) - ?L + i))"
    using inv h1 by (simp add: overlap_inv_def)
  moreover have "latents_cache st' (idx - 1) = Some per_iteration"
    using inv c1 by (simp add: overlap_inv_def)
  moreover have "\<exists>m. latents_cache st' idx = Some m \<and> m iteration = Some latents"
    using inv c2 by (simp add: overlap_inv_def)
  ultimately show ?thesis by blast
qed

theorem example_callback_continuity_witness:
  "\<exists>st'. example_callback [[], [2::int]]
            \<lparr>heap = (\<lambda>_. [])(0 := [10, 11, 12::nat], 1 := [20, 21, 22]),
             latents_cache = [0 \<mapsto> [5 \<mapsto> 0]]\<rparr> 1 5 1 = Inr st'
         \<and> length (heap st' 1) = 3
         \<and> heap st' 1 ! 0 = 12
         \<and> heap st' 1 ! 1 = 21
         \<and> heap st' 1 ! 2 = 22
         \<and> heap st' 0 = [10, 11, 12]"
proof -
  let ?st = "\<lparr>heap = (\<lambda>_. [])(0 := [10, 11, 12::nat], 1 := [20, 21, 22]),
             latents_cache = [0 \<mapsto> [5 \<mapsto> 0]]\<rparr>"
  have h: "(1::int) > 0" "py_get [[], [2::int]] 1 = Inr [2]"
    "latents_cache ?st (1 - 1) = Some [5 \<mapsto> 0]" "[5 \<mapsto> (0::nat)] (5::int) = Some 0"
    "length [2::int] \<le> length (heap ?st 1)" "length (heap ?st 1) \<le> length (heap ?st 0)"
    by (simp_all add: py_get_def py_index_def)
  from example_callback_continuity[OF h]
  obtain st' where r: "example_callback [[], [2::int]] ?st 1 5 1 = Inr st'"
    and len: "length (heap st' 1) = length (heap ?st 1)"
    and ov: "\<forall>i < length [2::int]. heap st' 1 ! i =
                 heap ?st 0 ! (length (heap ?st 1) - length [2::int] + i)"
    and keep: "\<forall>j. length [2::int] \<le> j \<and> j < length (heap ?st 1)
                  \<longrightarrow> heap st' 1 ! j = heap ?st 1 ! j"
    and others: "\<forall>q. q \<noteq> 1 \<longrightarrow> heap st' q = heap ?st q"
    by blast
  from len have "length (heap st' 1) = 3" by simp
  moreover from ov[rule_format, of 0] have "heap st' 1 ! 0 = 12" by simp
  moreover from keep[rule_format, of 1] have "heap st' 1 ! 1 = 21" by simp
  moreover from keep[rule_format, of 2] have "heap st' 1 ! 2 = 22" by simp
  moreover from others[rule_format, of 0] have "heap st' 0 = [10, 11, 12]" by simp
  ultimately show ?thesis using r by blast
qed

section \<open>The keyframe scheduler\<close>






lemma dict_keys_dict_set: "set (dict_keys (dict_set k v d)) = insert k (set (dict_keys d))"
  by (induction d) (auto simp: dict_keys_def)



lemma insert_hold_keys_step:
  "insert_hold_keys ((k0, k1) # pairs) r m =
     (if hold_key k0 k1 r \<noteq> k0 then
        (case dict_get m k0 of
           Inl e \<Rightarrow> Inl e
         | Inr v \<Rightarrow> insert_hold_keys pairs r (dict_set (hold_key k0 k1 r) v m))
      else insert_hold_keys pairs r m)"
  by (simp only: insert_hold_keys.simps hold_key_def Let_def)











section \<open>The per-frame query\<close>

lemma find_keys_sorted:
  "sorted_wrt (<) ks \<Longrightarrow>
   find_keys ks f (kp0, kn0) =
     (if list_ex (\<lambda>k. k \<le> f) ks then Max (set (filter (\<lambda>k. k \<le> f) ks)) else kp0,
      if list_ex (\<lambda>k. f < k) ks then Min (set (filter (\<lambda>k. f < k) ks)) else kn0)"
proof (induction ks arbitrary: kp0)
  case Nil
  then show ?case by simp
next
  case (Cons p ps)
  have gt: "\<forall>x \<in> set ps. p < x" and srt: "sorted_wrt (<) ps" using Cons.prems by simp_all
  show ?case
  proof (cases "p > f")
    case True
    then have all: "\<forall>x \<in> set (p # ps). f < x" using gt by auto
    then have none: "filter (\<lambda>k. k \<le> f) (p # ps) = []"
      by (auto simp: filter_empty_conv)
    have ex1: "\<not> list_ex (\<lambda>k. k \<le> f) (p # ps)"
      using all by (auto simp: list_ex_iff)
    have ex2: "list_ex (\<lambda>k. f < k) (p # ps)" using True by simp
    have "filter (\<lambda>k. f < k) (p # ps) = p # ps"
      using all by (simp add: filter_id_conv)
    moreover have "Min (set (p # ps)) = p"
      using gt by (intro Min_eqI) auto
    ultimately have "Min (set (filter (\<lambda>k. f < k) (p # ps))) = p" by simp
    then show ?thesis using True ex1 ex2 by simp
  next
    case False
    then have le: "p \<le> f" by simp
    let ?A = "set (filter (\<lambda>k. k \<le> f) ps)"
    have step: "find_keys (p # ps) f (kp0, kn0) = find_keys ps f (p, kn0)"
      using False by simp
    have ex1: "list_ex (\<lambda>k. k \<le> f) (p # ps)" using le by simp
    have mx: "Max (set (filter (\<lambda>k. k \<le> f) (p # ps))) =
          (if list_ex (\<lambda>k. k \<le> f) ps then Max ?A else p)"
    proof (cases "list_ex (\<lambda>k. k \<le> f) ps")
      case True
      then have ne: "?A \<noteq> {}" by (auto simp: list_ex_iff filter_empty_conv)
      have "\<forall>x \<in> ?A. p < x" using gt by simp
      then have "p \<le> Max ?A" using ne by (meson List.finite_set Max_in less_imp_le)
      then have "Max (insert p ?A) = Max ?A" using ne by (simp add: max_def)
      then show ?thesis using True le by simp
    next
      case False
      then have "filter (\<lambda>k. k \<le> f) ps = []" by (auto simp: list_ex_iff filter_empty_conv)
      then show ?thesis using False le by simp
    qed
    have ex2: "list_ex (\<lambda>k. f < k) (p # ps) = list_ex (\<lambda>k. f < k) ps" using False by simp
    have fl: "filter (\<lambda>k. f < k) (p # ps) = filter (\<lambda>k. f < k) ps" using False by simp
    show ?thesis
      unfolding step Cons.IH[OF srt] mx ex2 fl using ex1 by simp
  qed
qed

lemma find_keys_spec:
  assumes "sorted_wrt (<) ks"
  shows "find_keys ks f (last ks, hd ks) = (spec_key_prev ks f, spec_key_next ks f)"
  using find_keys_sorted[OF assms] by (simp add: spec_key_prev_def spec_key_next_def)

lemma spec_key_prev_mem: "ks \<noteq> [] \<Longrightarrow> spec_key_prev ks f \<in> set ks"
proof -
  assume ne: "ks \<noteq> []"
  show ?thesis
  proof (cases "list_ex (\<lambda>k. k \<le> f) ks")
    case True
    then have "set (filter (\<lambda>k. k \<le> f) ks) \<noteq> {}" by (auto simp: list_ex_iff filter_empty_conv)
    then have "Max (set (filter (\<lambda>k. k \<le> f) ks)) \<in> set (filter (\<lambda>k. k \<le> f) ks)"
      by (intro Max_in) simp_all
    then show ?thesis using True by (simp add: spec_key_prev_def)
  next
    case False
    then show ?thesis using ne by (simp add: spec_key_prev_def)
  qed
qed

lemma spec_key_next_mem: "ks \<noteq> [] \<Longrightarrow> spec_key_next ks f \<in> set ks"
proof -
  assume ne: "ks \<noteq> []"
  show ?thesis
  proof (cases "list_ex (\<lambda>k. f < k) ks")
    case True
    then have "set (filter (\<lambda>k. f < k) ks) \<noteq> {}" by (auto simp: list_ex_iff filter_empty_conv)
    then have "Min (set (filter (\<lambda>k. f < k) ks)) \<in> set (filter (\<lambda>k. f < k) ks)"
      by (intro Min_in) simp_all
    then show ?thesis using True by (simp add: spec_key_next_def)
  next
    case False
    then show ?thesis using ne by (simp add: spec_key_next_def)
  qed
qed

lemma wrap_dist:
  assumes "0 \<le> a" "a < d" "0 \<le> b" "b < (d::int)"
  shows "(if b - a < 0 then b - a + d else b - a) = circular_dist a b d"
proof (cases "b - a < 0")
  case True
  then have "0 \<le> b - a + d" "b - a + d < d" using assms by simp_all
  then have "(b - a + d) mod d = b - a + d" by (rule mod_pos_pos_trivial)
  moreover have "(b - a + d) mod d = (b - a) mod d" by simp
  ultimately have "(b - a) mod d = b - a + d" by simp
  then show ?thesis using True by (simp add: circular_dist_def)
next
  case False
  then have "0 \<le> b - a" "b - a < d" using assms by simp_all
  then have "(b - a) mod d = b - a" by (rule mod_pos_pos_trivial)
  then show ?thesis using False by (simp add: circular_dist_def)
qed

lemma circular_dist_zero:
  assumes "0 \<le> a" "a < d" "0 \<le> b" "b < (d::int)"
  shows "0 \<le> circular_dist a b d" "circular_dist a b d = 0 \<Longrightarrow> a = b"
proof -
  show "0 \<le> circular_dist a b d" using assms by (simp add: circular_dist_def)
  assume "circular_dist a b d = 0"
  then have "(if b - a < 0 then b - a + d else b - a) = 0"
    using wrap_dist[OF assms] by simp
  then show "a = b" using assms by (simp split: if_splits)
qed

text \<open>
  Claim C5 (per-frame query). For a non-empty map sorted by strictly ascending keys in
  \<open>[0, duration)\<close> and a frame in \<open>[0, duration)\<close>, the query of \<^verbatim>\<open>run_upscale\<close> is the
  query of the specification: \<open>key_prev\<close> is the greatest key at or before the frame
  (the last key when there is none), \<open>key_next\<close> the smallest key after it (the first
  key when there is none); equal keys give the stored value, otherwise the two values
  are interpolated at \<open>dist(key_prev, f) / (dist(key_prev, f) + dist(f, key_next))\<close> with
  distances taken modulo \<open>duration\<close>.
\<close>

theorem query_refines_spec:
  assumes "dict_keys m \<noteq> []"
    and "sorted_wrt (<) (dict_keys m)"
    and "\<forall>k \<in> set (dict_keys m). 0 \<le> k \<and> k < duration"
    and "0 \<le> f" and "f < duration"
  shows "upscale_query m interpolate f duration = spec_query m interpolate f duration"
proof -
  let ?ks = "dict_keys m"
  let ?kp = "spec_key_prev ?ks f"
  let ?kn = "spec_key_next ?ks f"
  obtain k0 rest where ks: "?ks = k0 # rest" using assms(1) by (cases ?ks) auto
  have hd: "hd ?ks = k0" using ks by simp
  have fk: "find_keys ?ks f (last ?ks, k0) = (?kp, ?kn)"
    using find_keys_spec[OF assms(2), of f] hd by simp
  have kp: "0 \<le> ?kp" "?kp < duration" using spec_key_prev_mem[OF assms(1), of f] assms(3) by auto
  have kn: "0 \<le> ?kn" "?kn < duration" using spec_key_next_mem[OF assms(1), of f] assms(3) by auto
  let ?dp = "circular_dist ?kp f duration"
  let ?dn = "circular_dist f ?kn duration"
  have dp: "(if f - ?kp < 0 then f - ?kp + duration else f - ?kp) = ?dp"
    using wrap_dist[OF kp assms(4,5)] .
  have dn: "(if ?kn - f < 0 then ?kn - f + duration else ?kn - f) = ?dn"
    using wrap_dist[OF assms(4,5) kn] .
  have cond: "(?kp = ?kn \<or> ?dp + ?dn = 0) = (?kp = ?kn)"
  proof -
    have "?kp = ?kn" if "?dp + ?dn = 0"
    proof -
      have "0 \<le> ?dp" "0 \<le> ?dn"
        using circular_dist_zero(1)[OF kp assms(4,5)] circular_dist_zero(1)[OF assms(4,5) kn]
        by simp_all
      with that have "?dp = 0" "?dn = 0" by simp_all
      then have "?kp = f" "f = ?kn"
        using circular_dist_zero(2)[OF kp assms(4,5)] circular_dist_zero(2)[OF assms(4,5) kn]
        by simp_all
      then show ?thesis by simp
    qed
    then show ?thesis by blast
  qed
  have "upscale_query m interpolate f duration =
        get_current_prompt_embeds m interpolate k0 (last ?ks) f duration"
    by (simp add: upscale_query_def ks)
  also have "\<dots> = spec_query m interpolate f duration"
    unfolding get_current_prompt_embeds_def spec_query_def Let_def fk prod.case dp dn cond
    by simp
  finally show ?thesis .
qed

theorem query_refines_spec_witness:
  "upscale_query [(0, 1), (8, 2)] (\<lambda>a b t. a + (b - a) * t) 4 16
     = spec_query [(0, 1), (8, 2)] (\<lambda>a b t. a + (b - a) * t) 4 16
   \<and> upscale_query [(0, 1), (8, 2)] (\<lambda>a b t. a + (b - a) * t) 4 16 = Inr (3 / 2)"
proof -
  have h: "dict_keys [(0::int, 1::rat), (8, 2)] \<noteq> []"
    "sorted_wrt (<) (dict_keys [(0::int, 1::rat), (8, 2)])"
    "\<forall>k \<in> set (dict_keys [(0::int, 1::rat), (8, 2)]). 0 \<le> k \<and> k < 16"
    "(0::int) \<le> 4" "(4::int) < 16"
    by (simp_all add: dict_keys_def)
  have "upscale_query [(0, 1), (8, 2)] (\<lambda>a b t. a + (b - a) * t) 4 16 = Inr (3 / 2)"
    by (simp add: upscale_query_def get_current_prompt_embeds_def dict_keys_def Let_def)
  then show ?thesis using query_refines_spec[OF h] by simp
qed

lemma spec_key_prev_at_key:
  assumes "f \<in> set ks"
  shows "spec_key_prev ks f = f"
proof -
  have ex: "list_ex (\<lambda>k. k \<le> f) ks" using assms by (auto simp: list_ex_iff)
  have "Max (set (filter (\<lambda>k. k \<le> f) ks)) = f"
    using assms by (intro Max_eqI) auto
  then show ?thesis using ex by (simp add: spec_key_prev_def)
qed

text \<open>
  At a keyframe the rate is 0: with an interpolation method that returns its first
  argument at rate 0, the query returns the value stored at that keyframe.
\<close>

lemma query_at_keyframe:
  assumes "sorted_wrt (<) (dict_keys m)"
    and "f \<in> set (dict_keys m)"
    and "\<forall>a b. interpolate a b 0 = a"
  shows "upscale_query m interpolate f duration = dict_get m f"
proof -
  let ?ks = "dict_keys m"
  let ?kn = "spec_key_next ?ks f"
  have ne: "?ks \<noteq> []" using assms(2) by auto
  obtain k0 rest where ks: "?ks = k0 # rest" using ne by (cases ?ks) auto
  have fk: "find_keys ?ks f (last ?ks, k0) = (f, ?kn)"
    using find_keys_spec[OF assms(1), of f] ks spec_key_prev_at_key[OF assms(2)] by simp
  obtain a where a: "dict_get m f = Inr a" using dict_get_mem[OF assms(2)] ..
  obtain b where b: "dict_get m ?kn = Inr b"
    using dict_get_mem[OF spec_key_next_mem[OF ne, of f]] ..
  have "upscale_query m interpolate f duration =
        get_current_prompt_embeds m interpolate k0 (last ?ks) f duration"
    by (simp add: upscale_query_def ks)
  also have "\<dots> = Inr a"
    unfolding get_current_prompt_embeds_def Let_def fk prod.case
    using assms(3) by (simp add: a b)
  finally show ?thesis using a by simp
qed


section \<open>Mask schedules\<close>





lemma fill_frames_dense:
  "\<forall>i. a \<le> i \<and> i \<le> b \<longrightarrow> map_of m i \<noteq> None \<Longrightarrow> fill_frames [a..b] m prev = m"
proof (induction "nat (b - a + 1)" arbitrary: a prev)
  case 0
  then have "[a..b] = []" by simp
  then show ?case by simp
next
  case (Suc n)
  then have ab: "a \<le> b" by simp
  then have up: "[a..b] = a # [a + 1..b]" by (simp add: upto_rec1)
  have n: "n = nat (b - (a + 1) + 1)" using Suc.hyps(2) by simp
  obtain img where img: "map_of m a = Some img" using Suc.prems ab by auto
  have "\<forall>i. a + 1 \<le> i \<and> i \<le> b \<longrightarrow> map_of m i \<noteq> None" using Suc.prems by simp
  from Suc.hyps(1)[OF n this] show ?case by (simp add: up img)
qed

text \<open>
  Claim C9 (idempotence of the forward fill). On a map that has every frame of
  \<open>[0, duration)\<close> as a key the forward fill returns the map itself: no entry is added,
  removed, moved or changed.
\<close>

theorem forward_fill_idempotent:
  assumes "\<forall>i. 0 \<le> i \<and> i < duration \<longrightarrow> map_of mask_map i \<noteq> None"
  shows "forward_fill mask_map mode sz duration = mask_map"
proof -
  have "\<forall>i. 0 \<le> i \<and> i \<le> duration - 1 \<longrightarrow> map_of mask_map i \<noteq> None"
    using assms by simp
  then show ?thesis
    by (simp add: forward_fill_def py_range_def fill_frames_dense)
qed

theorem forward_fill_idempotent_witness:
  "forward_fill [(1, Image ''L'' (1, 1) [7]), (0, Image ''L'' (1, 1) [9])] ''L'' (1, 1) 2
     = [(1, Image ''L'' (1, 1) [7]), (0, Image ''L'' (1, 1) [9])]"
proof -
  have "\<forall>i. 0 \<le> i \<and> i < 2 \<longrightarrow>
          map_of [(1::int, Image ''L'' (1, 1) [7]), (0, Image ''L'' (1, 1) [9])] i \<noteq> None"
    by auto
  then show ?thesis by (rule forward_fill_idempotent)
qed

section \<open>The output stitcher\<close>

text \<open>
  Claim C3 (output stitching). The claim asks that both representations drop the leading
  \<open>len(overlaps[i])\<close> frames of every output after the first. The tensor branch does;
  the array branch joins the outputs whole: two windows of three frames that share one
  key give six frames as arrays and five, the number of keys, as tensors.
\<close>

theorem combine_videos_ndarray_keeps_overlap:
  "combine_videos [NdArray [0, 1, 2::nat], NdArray [2, 3, 4]] [[], [2::int]]
     = Inr (NdArray [0, 1, 2, 2, 3, 4])
   \<and> combine_videos [Tensor [0, 1, 2::nat], Tensor [2, 3, 4]] [[], [2::int]]
     = Inr (Tensor [0, 1, 2, 3, 4])"
  by (simp add: combine_videos_def py_get_def py_index_def)

lemma combine_tensors_all:
  "1 \<le> i \<Longrightarrow> i + length fss \<le> length overlaps \<Longrightarrow>
   combine_tensors (map Tensor fss) overlaps i (Tensor acc) =
     Inr (Tensor (acc @ concat (map2 (\<lambda>fs ov. drop (length ov) fs) fss (drop i overlaps))))"
proof (induction fss arbitrary: i acc)
  case Nil
  then show ?case by simp
next
  case (Cons fs fss)
  have i: "i < length overlaps" "i \<noteq> 0" using Cons.prems by simp_all
  have g: "py_get overlaps (int i) = Inr (overlaps ! i)" using i by (simp add: py_get_nat)
  have d: "drop i overlaps = overlaps ! i # drop (Suc i) overlaps"
    using i by (simp add: Cons_nth_drop_Suc)
  have "combine_tensors (map Tensor (fs # fss)) overlaps i (Tensor acc) =
        combine_tensors (map Tensor fss) overlaps (Suc i)
          (Tensor (acc @ drop (length (overlaps ! i)) fs))"
    using i by (simp add: g)
  also have "\<dots> = Inr (Tensor ((acc @ drop (length (overlaps ! i)) fs) @
       concat (map2 (\<lambda>fs ov. drop (length ov) fs) fss (drop (Suc i) overlaps))))"
    using Cons.prems by (intro Cons.IH) simp_all
  finally show ?case by (simp add: d)
qed

lemma combine_videos_tensors:
  assumes "length overlaps = Suc (length fss)"
  shows "combine_videos (map Tensor (f0 # fss)) overlaps =
           Inr (Tensor (f0 @ concat (map2 (\<lambda>fs ov. drop (length ov) fs) fss (tl overlaps))))"
proof -
  have "combine_videos (map Tensor (f0 # fss)) overlaps =
        combine_tensors (map Tensor fss) overlaps 1 (Tensor f0)"
    by (simp add: combine_videos_def)
  also have "\<dots> = Inr (Tensor (f0 @ concat (map2 (\<lambda>fs ov. drop (length ov) fs) fss (drop 1 overlaps))))"
    using assms by (intro combine_tensors_all) simp_all
  finally show ?thesis by (simp add: drop_Suc)
qed

lemma stitched_length:
  "length fss = length segs \<Longrightarrow> length segs = length ovs \<Longrightarrow>
   \<forall>fs \<in> set fss. length fs = w \<Longrightarrow> \<forall>seg \<in> set segs. length seg = w \<Longrightarrow>
   length (concat (map2 (\<lambda>fs ov. drop (length ov) fs) fss ovs)) = length (trim_all segs ovs)"
proof (induction fss segs ovs rule: list_induct3)
  case Nil
  then show ?case by (simp add: trim_all_def)
next
  case (Cons fs fss seg segs ov ovs)
  then show ?case by (simp add: trim_all_Cons dict_keys_def)
qed

text \<open>
  The tensor branch on the windows of \<^verbatim>\<open>segment_dict\<close>: with one tensor of
  \<open>segment_size\<close> frames per window, the stitched tensor has as many frames as the
  dictionary has keys.
\<close>

theorem stitch_tensors_length:
  assumes "distinct (dict_keys dictionary)"
    and "int (length (dict_keys dictionary)) \<ge> W" and "W > ov" and "ov \<ge> 0"
    and sd: "segment_dict dictionary W ov = Some (Inr (segments, overlaps))"
    and lf: "length fss = length segments"
    and wf: "\<forall>fs \<in> set fss. int (length fs) = W"
  shows "\<exists>frames. combine_videos (map Tensor fss) overlaps = Inr (Tensor frames)
           \<and> frame_count (Tensor frames) = length (dict_keys dictionary)"
proof -
  let ?ks = "dict_keys dictionary"
  have len: "length ?ks = length dictionary" by (simp add: dict_keys_def)
  obtain w where w: "W = int w" using assms(3,4) by (metis nat_0_le order.strict_implies_order order_trans)
  obtain v where v: "ov = int v" using assms(4) by (metis nat_0_le)
  have vw: "v < w" using assms(3) w v by simp
  have wN: "w \<le> length dictionary" using assms(2) w len by simp
  have wf': "\<forall>fs \<in> set fss. length fs = w" using wf w by simp
  show ?thesis
  proof (cases "w = length dictionary")
    case True
    then have "segment_dict dictionary W ov = Some (Inr ([dictionary], []))"
      by (simp add: segment_dict_def w len)
    with sd have so: "segments = [dictionary]" "overlaps = []" by simp_all
    with lf obtain f0 where f0: "fss = [f0]" by (cases fss) auto
    then have "length f0 = w" using wf' by simp
    moreover have "combine_videos (map Tensor fss) overlaps = Inr (Tensor f0)"
      by (simp add: f0 so combine_videos_def)
    ultimately show ?thesis using True len by (simp add: frame_count_def)
  next
    case False
    then have lt: "w < length dictionary" using wN by simp
    have sd': "segment_dict dictionary W ov =
              segment_loop dictionary ?ks (int w) (int v) (int 0) (map ((!) ?ks) [0..<0]) ([], [])"
      using lt by (simp add: segment_dict_def w v len)
    have "0 < length dictionary" using lt by (cases dictionary) simp_all
    from segment_loop_covers[OF assms(1) vw le_refl le_refl _ this, of "([], [])"] wN
    obtain segs ovs where
      r: "segment_loop dictionary ?ks (int w) (int v) (int 0) (map ((!) ?ks) [0..<0]) ([], [])
            = Some (Inr (segs, ovs))"
      and l: "length segs = length ovs" and ne: "segs \<noteq> []" and h: "hd ovs = []"
      and sz: "\<forall>seg \<in> set segs. length seg = w"
      and t: "trim_all segs ovs = map ((!) ?ks) [0..<length dictionary]"
      by auto
    have eq: "segments = segs" "overlaps = ovs" using sd sd' r by simp_all
    from ne l obtain seg segs' ovs' where c: "segs = seg # segs'" "ovs = [] # ovs'"
      "length segs' = length ovs'"
      using h by (cases segs; cases ovs) auto
    from lf eq c obtain f0 frest where f: "fss = f0 # frest" "length frest = length segs'"
      by (cases fss) auto
    have f0: "length f0 = w" using wf' f by simp
    have "combine_videos (map Tensor fss) overlaps =
          Inr (Tensor (f0 @ concat (map2 (\<lambda>fs ov. drop (length ov) fs) frest ovs')))"
      unfolding f eq c using combine_videos_tensors[of "[] # ovs'" frest f0] f c by simp
    moreover have "length (concat (map2 (\<lambda>fs ov. drop (length ov) fs) frest ovs'))
          = length (trim_all segs' ovs')"
      using f c wf' sz by (intro stitched_length[where w = w]) simp_all
    moreover have "length (trim_all segs ovs) = length dictionary"
      using t by simp
    moreover have "length (trim_all segs ovs) = w + length (trim_all segs' ovs')"
      using c sz by (simp add: trim_all_Cons dict_keys_def)
    ultimately show ?thesis using f0 len by (simp add: frame_count_def)
  qed
qed

theorem stitch_tensors_length_witness:
  "\<exists>frames. combine_videos (map Tensor [[10, 11, 12::nat], [12, 13, 14]]) [[], [2::int]]
       = Inr (Tensor frames)
     \<and> frame_count (Tensor frames) = 5"
proof -
  let ?d = "[(0::int, ''a''), (1, ''b''), (2, ''c''), (3, ''d''), (4, ''e'')]"
  have sd: "segment_dict ?d 3 1 =
      Some (Inr ([[(0, ''a''), (1, ''b''), (2, ''c'')], [(2, ''c''), (3, ''d''), (4, ''e'')]],
                 [[], [2]]))"
    by code_simp
  have h: "distinct (dict_keys ?d)" "int (length (dict_keys ?d)) \<ge> 3" "(3::int) > 1" "(1::int) \<ge> 0"
    by (simp_all add: dict_keys_def)
  have lf: "length [[10, 11, 12::nat], [12, 13, 14]] =
            length [[(0::int, ''a''), (1, ''b''), (2, ''c'')], [(2, ''c''), (3, ''d''), (4, ''e'')]]"
    by simp
  have wf: "\<forall>fs \<in> set [[10, 11, 12::nat], [12, 13, 14]]. int (length fs) = 3" by simp
  have n: "length (dict_keys ?d) = 5" by (simp add: dict_keys_def)
  from stitch_tensors_length[OF h sd lf wf] show ?thesis unfolding n .
qed

section \<open>The region composer\<close>

lemma insert_hold_keys_total:
  "\<forall>p \<in> set pairs. fst p \<in> set (dict_keys m) \<Longrightarrow> \<exists>m'. insert_hold_keys pairs r m = Inr m'"
proof (induction pairs arbitrary: m)
  case Nil
  then show ?case by simp
next
  case (Cons p pairs)
  obtain k0 k1 where p: "p = (k0, k1)" by (cases p)
  have "k0 \<in> set (dict_keys m)" using Cons.prems p by simp
  from dict_get_mem[OF this] obtain v where v: "dict_get m k0 = Inr v" ..
  let ?m = "dict_set (hold_key k0 k1 r) v m"
  have "\<forall>q \<in> set pairs. fst q \<in> set (dict_keys ?m)"
    using Cons.prems by (simp add: dict_keys_dict_set)
  from Cons.IH[OF this] obtain m1 where m1: "insert_hold_keys pairs r ?m = Inr m1" ..
  have "\<forall>q \<in> set pairs. fst q \<in> set (dict_keys m)" using Cons.prems by simp
  from Cons.IH[OF this] obtain m2 where m2: "insert_hold_keys pairs r m = Inr m2" ..
  show ?case unfolding p insert_hold_keys_step v using m1 m2 by simp
qed

lemma add_hold_keys_total: "\<exists>m'. add_hold_keys m r duration = Inr m'"
proof -
  let ?s = "sort_key fst m"
  have "\<forall>p \<in> set (zip (dict_keys ?s) (tl (dict_keys ?s) @ [duration])). fst p \<in> set (dict_keys ?s)"
    by (auto dest: set_zip_leftD)
  from insert_hold_keys_total[OF this] show ?thesis
    by (simp add: add_hold_keys_def Let_def)
qed

lemma prompt_preprocess_total: "\<exists>p. prompt_preprocess pm h t r duration = Inr p"
  unfolding prompt_preprocess_def Let_def by (rule add_hold_keys_total)

lemma ip_adapter_preprocess_total: "\<exists>x. ip_adapter_preprocess cfg duration = Inr x"
proof (cases cfg)
  case None
  then show ?thesis by (simp add: ip_adapter_preprocess_def)
next
  case (Some c)
  let ?images = "fold (\<lambda>(frame_no, img) m. if frame_no < duration then dict_set frame_no img m else m)
                     (ip_input_images c) []"
  obtain m' where "add_hold_keys ?images (max (min 1 (ip_prompt_fixed_ratio c)) 0) duration = Inr m'"
    using add_hold_keys_total by blast
  then show ?thesis using Some by (simp add: ip_adapter_preprocess_def Let_def)
qed

lemma dict_set_nonempty: "dict_set k v d \<noteq> []"
  by (cases d) simp_all

lemma fill_frames_nonempty: "m \<noteq> [] \<Longrightarrow> fill_frames is m prev \<noteq> []"
proof (induction "is" arbitrary: m prev)
  case Nil
  then show ?case by simp
next
  case (Cons i "is")
  show ?case
  proof (cases "map_of m i")
    case None
    then show ?thesis using Cons.IH[OF dict_set_nonempty] by simp
  next
    case (Some img)
    then show ?thesis using Cons.IH[OF Cons.prems] by simp
  qed
qed

lemma forward_fill_nonempty: "m \<noteq> [] \<Longrightarrow> forward_fill m mode sz duration \<noteq> []"
  by (simp add: forward_fill_def Let_def fill_frames_nonempty)

lemma load_mask_inv:
  "mask_inv duration seen st \<Longrightarrow> mask_inv duration (seen @ [fl]) (load_mask duration fl st)"
  by (auto simp: mask_inv_def load_mask_def Let_def dict_set_nonempty)

lemma fold_load_mask_inv:
  "mask_inv duration seen st \<Longrightarrow>
   mask_inv duration (seen @ files) (fold (load_mask duration) files st)"
proof (induction files arbitrary: seen st)
  case Nil
  then show ?case by simp
next
  case (Cons fl files)
  from Cons.IH[OF load_mask_inv[OF Cons.prems, of fl]] show ?case by simp
qed

lemma mask_preprocess_result:
  "\<exists>x. mask_preprocess (Some rc) duration = Inr x
       \<and> ((x \<noteq> None \<and> x \<noteq> Some []) = has_masks duration rc)"
proof -
  let ?init = "\<lparr>ms_mask_map = [], ms_size = None, ms_mode = None, ms_processed = False\<rparr>"
  let ?st = "fold (load_mask duration) (rg_mask_files rc) ?init"
  have "mask_inv duration [] ?init" by (simp add: mask_inv_def)
  from fold_load_mask_inv[OF this, of "rg_mask_files rc"]
  have inv: "mask_inv duration (rg_mask_files rc) ?st" by simp
  show ?thesis
  proof (cases "ms_processed ?st")
    case False
    then have "mask_preprocess (Some rc) duration = Inr None"
      by (simp add: mask_preprocess_def Let_def)
    moreover have "\<not> has_masks duration rc"
      using inv False by (simp add: mask_inv_def has_masks_def)
    ultimately show ?thesis by simp
  next
    case True
    then obtain sz m where sm: "ms_size ?st = Some sz" "ms_mode ?st = Some m"
      and ne: "ms_mask_map ?st \<noteq> []"
      using inv by (auto simp: mask_inv_def)
    have "mask_preprocess (Some rc) duration =
            Inr (Some (forward_fill (ms_mask_map ?st) m sz duration))"
      using True sm by (simp add: mask_preprocess_def Let_def)
    moreover have "forward_fill (ms_mask_map ?st) m sz duration \<noteq> []"
      using ne by (rule forward_fill_nonempty)
    moreover have "has_masks duration rc"
      using inv True by (simp add: mask_inv_def has_masks_def)
    ultimately show ?thesis by simp
  qed
qed

lemma last_ip_map_snoc:
  "last_ip_map (cs @ [c]) =
     (if cm_ip_adapter_map c \<noteq> None then cm_ip_adapter_map c else last_ip_map cs)"
  by (simp add: last_ip_map_def Let_def)

lemma append_condition_result:
  "\<exists>c. append_condition ip_cfg pm h t r duration st =
          Inr (st\<lparr>region_condi_list := region_condi_list st @ [c],
                  condi_index := condi_index st + 1,
                  prev_ip_map := (if cm_ip_adapter_map c \<noteq> None then cm_ip_adapter_map c
                                  else prev_ip_map st)\<rparr>)"
proof -
  obtain ip_map where i: "ip_adapter_preprocess ip_cfg duration = Inr ip_map"
    using ip_adapter_preprocess_total by blast
  obtain p where p: "prompt_preprocess pm h t r duration = Inr p"
    using prompt_preprocess_total by blast
  show ?thesis
    by (rule exI[of _ "\<lparr>cm_prompt_map = p, cm_ip_adapter_map = ip_map\<rparr>"])
       (simp add: append_condition_def i p)
qed

lemma region_loop_result:
  "region_inv st \<Longrightarrow>
   \<exists>st'. region_loop rs duration init st = Inr st' \<and> region_inv st'
     \<and> length (region_condi_list st') =
         length (region_condi_list st) + length (filter (contributes duration) rs)"
proof (induction rs arbitrary: st)
  case Nil
  then show ?case by simp
next
  case (Cons entry rs)
  obtain r rc where e: "entry = (r, rc)" by (cases entry)
  obtain x where x: "mask_preprocess (Some rc) duration = Inr x"
    and hx: "(x \<noteq> None \<and> x \<noteq> Some []) = has_masks duration rc"
    using mask_preprocess_result by blast
  show ?case
  proof (cases "contributes duration entry")
    case True
    then have c: "r \<noteq> Background" "rg_enable rc" "has_masks duration rc" "\<not> rg_is_init_img rc"
      by (simp_all add: contributes_def e)
    obtain cm where a: "append_condition (cd_ip_adapter_map (rg_condition rc))
                       (cd_prompt_map (rg_condition rc)) (cd_head_prompt (rg_condition rc))
                       (cd_tail_prompt (rg_condition rc))
                       (cd_prompt_fixed_ratio (rg_condition rc)) duration st =
          Inr (st\<lparr>region_condi_list := region_condi_list st @ [cm],
                  condi_index := condi_index st + 1,
                  prev_ip_map := (if cm_ip_adapter_map cm \<noteq> None then cm_ip_adapter_map cm
                                  else prev_ip_map st)\<rparr>)"
      using append_condition_result by blast
    let ?st1 = "st\<lparr>region_condi_list := region_condi_list st @ [cm],
                  condi_index := condi_index st + 1,
                  prev_ip_map := (if cm_ip_adapter_map cm \<noteq> None then cm_ip_adapter_map cm
                                  else prev_ip_map st)\<rparr>"
    let ?st2 = "?st1\<lparr>region_list := region_list ?st1 @
                             [\<lparr>re_mask_images = x, re_src = condi_index st\<rparr>]\<rparr>"
    have inv2: "region_inv ?st2"
      using Cons.prems by (simp add: region_inv_def last_ip_map_snoc)
    obtain mm where xs: "x = Some mm" "mm \<noteq> []" using hx c(3) by auto
    have step: "region_loop (entry # rs) duration init st = region_loop rs duration init ?st2"
      using c xs(2) by (simp add: e x a xs(1))
    from Cons.IH[OF inv2] obtain st' where
      "region_loop rs duration init ?st2 = Inr st'" "region_inv st'"
      "length (region_condi_list st') =
         length (region_condi_list ?st2) + length (filter (contributes duration) rs)"
      by blast
    then show ?thesis using step True by simp
  next
    case False
    have "\<exists>st2. region_loop (entry # rs) duration init st = region_loop rs duration init st2
            \<and> region_inv st2 \<and> region_condi_list st2 = region_condi_list st"
    proof (cases "r = Background \<or> \<not> rg_enable rc \<or> \<not> has_masks duration rc")
      case True
      then have "region_loop (entry # rs) duration init st = region_loop rs duration init st"
        using hx by (auto simp: e x)
      then show ?thesis using Cons.prems by blast
    next
      case f: False
      then have ii: "rg_is_init_img rc" using False by (simp add: contributes_def e)
      obtain mm where xs: "x = Some mm" "mm \<noteq> []" using hx f by auto
      show ?thesis
      proof (cases init)
        case True
        let ?st2 = "st\<lparr>region_list := region_list st @
                             [\<lparr>re_mask_images = x, re_src = - 1\<rparr>]\<rparr>"
        have "region_loop (entry # rs) duration init st = region_loop rs duration init ?st2"
          using f ii xs(2) True by (simp add: e x xs(1))
        moreover have "region_inv ?st2" using Cons.prems by (simp add: region_inv_def)
        ultimately show ?thesis by (intro exI[of _ ?st2]) simp
      next
        case False
        then have "region_loop (entry # rs) duration init st = region_loop rs duration init st"
          using f ii xs(2) by (simp add: e x xs(1))
        then show ?thesis using Cons.prems by blast
      qed
    qed
    then obtain st2 where s: "region_loop (entry # rs) duration init st = region_loop rs duration init st2"
      "region_inv st2" "region_condi_list st2 = region_condi_list st" by blast
    from Cons.IH[OF s(2)] obtain st' where
      "region_loop rs duration init st2 = Inr st'" "region_inv st'"
      "length (region_condi_list st') =
         length (region_condi_list st2) + length (filter (contributes duration) rs)"
      by blast
    then show ?thesis using s False by simp
  qed
qed

lemma background_condition_result:
  "\<exists>st. background_condition mc duration init = Inr st \<and> region_inv st
     \<and> length (region_condi_list st) = (if is_bg_init_img mc init then 0 else 1)"
proof (cases "is_bg_init_img mc init")
  case True
  then show ?thesis
    by (simp add: background_condition_def Let_def region_inv_def last_ip_map_def)
next
  case False
  let ?init = "\<lparr>region_condi_list = [], region_list = [], condi_index = 0, prev_ip_map = None\<rparr>"
  obtain cm where a: "append_condition (mc_ip_adapter_map mc) (mc_prompt_map mc) (mc_head_prompt mc)
                   (mc_tail_prompt mc) (mc_prompt_fixed_ratio mc) duration ?init =
          Inr (?init\<lparr>region_condi_list := region_condi_list ?init @ [cm],
                  condi_index := condi_index ?init + 1,
                  prev_ip_map := (if cm_ip_adapter_map cm \<noteq> None then cm_ip_adapter_map cm
                                  else prev_ip_map ?init)\<rparr>)"
    using append_condition_result by blast
  show ?thesis
    using False by (simp add: background_condition_def Let_def a region_inv_def last_ip_map_def)
qed

lemma collect_conditions_result:
  "\<exists>st. collect_conditions mc duration init = Inr st \<and> region_inv st
     \<and> length (region_condi_list st) =
         (if is_bg_init_img mc init then 0 else 1)
         + length (filter (contributes duration) (mc_region_map mc))"
proof -
  obtain st0 where b: "background_condition mc duration init = Inr st0" "region_inv st0"
    "length (region_condi_list st0) = (if is_bg_init_img mc init then 0 else 1)"
    using background_condition_result by blast
  from region_loop_result[OF b(2), of "mc_region_map mc" duration init]
  obtain st where "region_loop (mc_region_map mc) duration init st0 = Inr st" "region_inv st"
    "length (region_condi_list st) =
       length (region_condi_list st0) + length (filter (contributes duration) (mc_region_map mc))"
    by blast
  then show ?thesis using b by (simp add: collect_conditions_def)
qed

text \<open>
  Claim C8 (region composer failure). \<^verbatim>\<open>region_preprocess\<close> raises its
  \<^verbatim>\<open>ValueError\<close> exactly when the background is flagged to reuse the initial image
  and no entry of \<^verbatim>\<open>region_map\<close> contributes a bundle; as soon as one bundle results,
  that error is not raised.
\<close>

theorem region_preprocess_no_bundle_error:
  "(region_preprocess mc duration is_init_img_exist = Inl ValueError) =
     (is_bg_init_img mc is_init_img_exist
      \<and> \<not> list_ex (contributes duration) (mc_region_map mc))"
proof -
  obtain st where c: "collect_conditions mc duration is_init_img_exist = Inr st" "region_inv st"
    "length (region_condi_list st) =
         (if is_bg_init_img mc is_init_img_exist then 0 else 1)
         + length (filter (contributes duration) (mc_region_map mc))"
    using collect_conditions_result by blast
  have empty: "(region_condi_list st = []) =
     (is_bg_init_img mc is_init_img_exist \<and> \<not> list_ex (contributes duration) (mc_region_map mc))"
    using c(3) by (auto simp: list_ex_iff filter_empty_conv split: if_splits)
  show ?thesis
  proof (cases "region_condi_list st = []")
    case True
    then have "prev_ip_map st = None" using c(2) by (simp add: region_inv_def last_ip_map_def)
    then have "region_preprocess mc duration is_init_img_exist = Inl ValueError"
      using True by (simp add: region_preprocess_def c(1) fill_ip_adapter_def)
    then show ?thesis using True empty by simp
  next
    case False
    have "region_preprocess mc duration is_init_img_exist \<noteq> Inl ValueError"
      using False
      by (auto simp: region_preprocess_def c(1) fill_ip_adapter_def split: option.splits)
    then show ?thesis using False empty by simp
  qed
qed

theorem region_preprocess_no_bundle_error_witness:
  "region_preprocess init_only_config 16 True = Inl ValueError
   \<and> region_preprocess example_model_config 16 True \<noteq> Inl ValueError"
proof -
  have "is_bg_init_img init_only_config True
        \<and> \<not> list_ex (contributes 16) (mc_region_map init_only_config)"
    by (simp add: is_bg_init_img_def init_only_config_def contributes_def example_region_def)
  moreover have "\<not> is_bg_init_img example_model_config True"
    by (simp add: is_bg_init_img_def example_model_config_def)
  ultimately show ?thesis
    using region_preprocess_no_bundle_error[of init_only_config 16 True]
      region_preprocess_no_bundle_error[of example_model_config 16 True]
    by simp
qed

lemma example_region_preprocess:
  "region_preprocess example_model_config 1 False =
     Inr ([\<lparr>cm_prompt_map = [(0, ''bg'')],
             cm_ip_adapter_map = Some [(0, Image ''RGB'' (1, 1) [1])]\<rparr>,
           \<lparr>cm_prompt_map = [(0, ''r0'')],
             cm_ip_adapter_map = Some [(0, Image ''RGB'' (1, 1) [2])]\<rparr>,
           \<lparr>cm_prompt_map = [(0, ''r1'')],
             cm_ip_adapter_map = Some [(0, Image ''RGB'' (1, 1) [2])]\<rparr>],
          [\<lparr>re_mask_images = None, re_src = 0\<rparr>,
           \<lparr>re_mask_images = Some [(0, Image ''L'' (1, 1) [255])], re_src = 1\<rparr>,
           \<lparr>re_mask_images = Some [(0, Image ''L'' (1, 1) [255])], re_src = 2\<rparr>],
          Some \<lparr>st_scale = 1, st_is_plus = True, st_is_plus_face = False, st_is_light = False\<rparr>)"
  by code_simp

lemma example_collect_conditions:
  "map cm_ip_adapter_map
     (case collect_conditions example_model_config 1 False of
        Inl e \<Rightarrow> [] | Inr st \<Rightarrow> region_condi_list st)
   = [Some [(0, Image ''RGB'' (1, 1) [1])], None, Some [(0, Image ''RGB'' (1, 1) [2])]]"
  by code_simp

text \<open>
  Claim C7 (region adapter fallback), as amended. When \<^verbatim>\<open>region_preprocess\<close> returns,
  every bundle whose own source gave no adapter map holds the adapter map of the last
  source that gave one (not of the first), the other bundles keep their own, and the
  shared settings are those of \<^verbatim>\<open>model_config.ip_adapter_map\<close>, the top-level
  configuration, whichever source the fallback came from; without any adapter map the
  bundles are unchanged and there are no settings.
\<close>

theorem region_preprocess_adapter_fill:
  assumes "region_preprocess mc duration is_init_img_exist = Inr (condis, regions, settings)"
  shows "\<exists>st. collect_conditions mc duration is_init_img_exist = Inr st
           \<and> condis = map (\<lambda>c. if cm_ip_adapter_map c = None
                                then c\<lparr>cm_ip_adapter_map := last_ip_map (region_condi_list st)\<rparr>
                                else c) (region_condi_list st)
           \<and> (last_ip_map (region_condi_list st) = None \<longrightarrow> settings = None)
           \<and> (last_ip_map (region_condi_list st) \<noteq> None \<longrightarrow>
                (\<exists>cfg. mc_ip_adapter_map mc = Some cfg \<and> settings = Some (settings_of cfg)))"
proof -
  obtain st where c: "collect_conditions mc duration is_init_img_exist = Inr st" "region_inv st"
    using collect_conditions_result by blast
  have prev: "prev_ip_map st = last_ip_map (region_condi_list st)"
    using c(2) by (simp add: region_inv_def)
  show ?thesis
  proof (cases "prev_ip_map st")
    case None
    then have f: "fill_ip_adapter mc st = Inr (region_condi_list st, None)"
      by (simp add: fill_ip_adapter_def)
    have cs: "condis = region_condi_list st" "settings = None"
      using assms by (simp_all add: region_preprocess_def c(1) f split: if_splits)
    have L: "last_ip_map (region_condi_list st) = None" using prev None by simp
    have idm: "map (\<lambda>c. if cm_ip_adapter_map c = None
                          then c\<lparr>cm_ip_adapter_map := last_ip_map (region_condi_list st)\<rparr>
                          else c) (region_condi_list st)
                   = region_condi_list st"
      unfolding L by (rule map_idI) simp
    show ?thesis
      by (rule exI[of _ st]) (simp add: c(1) cs idm L)
  next
    case (Some p)
    show ?thesis
    proof (cases "mc_ip_adapter_map mc")
      case None
      then have "fill_ip_adapter mc st = Inl TypeError"
        using Some by (simp add: fill_ip_adapter_def)
      then show ?thesis using assms by (simp add: region_preprocess_def c(1))
    next
      case cfg: (Some cfg)
      have f: "fill_ip_adapter mc st =
            Inr (map (\<lambda>c. if cm_ip_adapter_map c = None
                              then c\<lparr>cm_ip_adapter_map := Some p\<rparr> else c)
                      (region_condi_list st), Some (settings_of cfg))"
        using Some cfg by (simp add: fill_ip_adapter_def settings_of_def)
      have cs: "condis = map (\<lambda>c. if cm_ip_adapter_map c = None
                              then c\<lparr>cm_ip_adapter_map := Some p\<rparr> else c)
                      (region_condi_list st)" "settings = Some (settings_of cfg)"
        using assms by (simp_all add: region_preprocess_def c(1) f split: if_splits)
      have L: "last_ip_map (region_condi_list st) = Some p" using prev Some by simp
      show ?thesis
        by (rule exI[of _ st]) (simp add: c(1) cs L cfg)
    qed
  qed
qed

theorem region_preprocess_adapter_fill_witness:
  "\<exists>st. collect_conditions example_model_config 1 False = Inr st
      \<and> last_ip_map (region_condi_list st) = Some [(0, Image ''RGB'' (1, 1) [2])]
      \<and> mc_ip_adapter_map example_model_config = Some example_ip_A"
proof -
  from region_preprocess_adapter_fill[OF example_region_preprocess]
  obtain st where st: "collect_conditions example_model_config 1 False = Inr st"
    by blast
  have own: "map cm_ip_adapter_map (region_condi_list st) =
      [Some [(0, Image ''RGB'' (1, 1) [1])], None, Some [(0, Image ''RGB'' (1, 1) [2])]]"
    using example_collect_conditions st by simp
  then have "last_ip_map (region_condi_list st) = Some [(0, Image ''RGB'' (1, 1) [2])]"
    by (auto simp: last_ip_map_def Let_def map_eq_Cons_conv)
  moreover have "mc_ip_adapter_map example_model_config = Some example_ip_A"
    by (simp add: example_model_config_def)
  ultimately show ?thesis using st by blast
qed

theorem region_adapter_fallback_counterexample:
  "\<exists>condis regions settings.
     region_preprocess example_model_config 1 False = Inr (condis, regions, settings)
     \<and> cm_ip_adapter_map (condis ! 0) = Some [(0, Image ''RGB'' (1, 1) [1])]
     \<and> cm_ip_adapter_map (condis ! 1) = Some [(0, Image ''RGB'' (1, 1) [2])]
     \<and> cm_ip_adapter_map (condis ! 1) \<noteq> cm_ip_adapter_map (condis ! 0)
     \<and> settings = Some (settings_of example_ip_A)
     \<and> settings \<noteq> Some (settings_of example_ip_B)"
  by (simp add: example_region_preprocess settings_of_def example_ip_A_def example_ip_B_def)

end
